theory Spec2Isabelle
  imports Main "HOL-Library.Char_ord" "HOL-Library.List_Lexorder"
begin

section \<open>Subjects and promises\<close>

text \<open>
  Embedding of \<^verbatim>\<open>pants/engine/exp/scheduler.py\<close>.

  Python objects that serve as subjects (targets, jars, ...) are values of a type \<open>'s\<close>
  compared with HOL equality; product types (Python classes) are values of \<open>'t\<close>,
  configurations of \<open>'c\<close>, planners of \<open>'p\<close>. Python's \<^verbatim>\<open>None\<close> is the \<open>None\<close> of an
  option type, so a subject object is never \<^verbatim>\<open>None\<close> and is truthy (the default truth
  value of an object that defines neither \<^verbatim>\<open>__nonzero__\<close> nor \<^verbatim>\<open>__len__\<close>).
\<close>

record 's Subject =
  primary :: 's
  alternate :: "'s option"

text \<open>A value passed where a subject is expected: a \<^verbatim>\<open>Subject\<close> instance or any other object.\<close>

datatype 's subject_arg = Plain 's | Wrapped "'s Subject"

text \<open>\<^verbatim>\<open>Subject.as_subject\<close>: \<^verbatim>\<open>item if isinstance(item, Subject) else cls(primary=item)\<close>.\<close>

definition as_subject :: "'s subject_arg \<Rightarrow> 's Subject" where
  "as_subject item =
     (case item of Wrapped s \<Rightarrow> s | Plain x \<Rightarrow> \<lparr>primary = x, alternate = None\<rparr>)"

text \<open>\<^verbatim>\<open>Subject.__eq__\<close> and \<^verbatim>\<open>Subject.__hash__\<close>; the builtin \<^verbatim>\<open>hash\<close> is a parameter.\<close>

definition Subject_eq :: "'s Subject \<Rightarrow> 's Subject \<Rightarrow> bool" where
  "Subject_eq a b = (primary a = primary b)"

definition Subject_hash :: "('s \<Rightarrow> int) \<Rightarrow> 's Subject \<Rightarrow> int" where
  "Subject_hash h s = h (primary s)"

record ('t, 's, 'c) Promise =
  product_type :: 't
  subject :: "'s Subject"
  configuration :: "'c option"

text \<open>\<^verbatim>\<open>Promise.__init__\<close>: the subject is stored through \<^verbatim>\<open>Subject.as_subject\<close>.\<close>

definition Promise_init :: "'t \<Rightarrow> 's subject_arg \<Rightarrow> 'c option \<Rightarrow> ('t, 's, 'c) Promise" where
  "Promise_init pt item cfg =
     \<lparr>product_type = pt, subject = as_subject item, configuration = cfg\<rparr>"

type_synonym ('t, 's, 'c) promise_key = "'t \<times> 's \<times> 'c option"

text \<open>\<^verbatim>\<open>Promise._key\<close>, \<^verbatim>\<open>Promise.__eq__\<close>, \<^verbatim>\<open>Promise.__hash__\<close>.\<close>

definition Promise_key :: "('t, 's, 'c) Promise \<Rightarrow> ('t, 's, 'c) promise_key" where
  "Promise_key p = (product_type p, primary (subject p), configuration p)"

definition Promise_eq :: "('t, 's, 'c) Promise \<Rightarrow> ('t, 's, 'c) Promise \<Rightarrow> bool" where
  "Promise_eq p q = (Promise_key p = Promise_key q)"

definition Promise_hash ::
  "(('t, 's, 'c) promise_key \<Rightarrow> int) \<Rightarrow> ('t, 's, 'c) Promise \<Rightarrow> int" where
  "Promise_hash h p = h (Promise_key p)"

text \<open>\<^verbatim>\<open>Promise.rebind\<close>.\<close>

definition rebind :: "('t, 's, 'c) Promise \<Rightarrow> 's subject_arg \<Rightarrow> ('t, 's, 'c) Promise" where
  "rebind p item = Promise_init (product_type p) item (configuration p)"

section \<open>Plans and their input trees\<close>

text \<open>
  The values of a plan's input tree. \<open>PObj\<close> is any object that is neither a mapping,
  nor iterable, nor a string, nor a promise (a subject, a number, ...); \<open>PType\<close> is a
  product type used as a value. A mapping is an association list in iteration order
  whose keys are names, as in the keyword arguments \<^verbatim>\<open>**inputs\<close>.
\<close>

datatype ('t, 's, 'c) pyval =
    PNone
  | PStr string
  | PObj "'s subject_arg"
  | PType 't
  | PPromise "('t, 's, 'c) Promise"
  | PDict "(string \<times> ('t, 's, 'c) pyval) list"
  | PList "('t, 's, 'c) pyval list"
  | PTuple "('t, 's, 'c) pyval list"

fun isinstance_Promise :: "('t, 's, 'c) pyval \<Rightarrow> bool" where
  "isinstance_Promise (PPromise p) = True"
| "isinstance_Promise v = False"

fun isinstance_Iterable :: "('t, 's, 'c) pyval \<Rightarrow> bool" where
  "isinstance_Iterable (PStr s) = True"
| "isinstance_Iterable (PDict kvs) = True"
| "isinstance_Iterable (PList xs) = True"
| "isinstance_Iterable (PTuple xs) = True"
| "isinstance_Iterable v = False"

fun isinstance_string :: "('t, 's, 'c) pyval \<Rightarrow> bool" where
  "isinstance_string (PStr s) = True"
| "isinstance_string v = False"

text \<open>\<^verbatim>\<open>Plan._is_mapping\<close> and \<^verbatim>\<open>Plan._is_iterable\<close>.\<close>

fun is_mapping :: "('t, 's, 'c) pyval \<Rightarrow> bool" where
  "is_mapping (PDict kvs) = True"
| "is_mapping v = False"

definition is_iterable :: "('t, 's, 'c) pyval \<Rightarrow> bool" where
  "is_iterable v = (isinstance_Iterable v \<and> \<not> isinstance_string v)"

text \<open>\<^verbatim>\<open>value.items()\<close> of a mapping, and what \<^verbatim>\<open>for i in value\<close> iterates over: the
  items of a list or tuple, the keys of a mapping, the one-character strings of a string.\<close>

fun items :: "('t, 's, 'c) pyval \<Rightarrow> (string \<times> ('t, 's, 'c) pyval) list" where
  "items (PDict kvs) = kvs"
| "items v = []"

fun py_iter :: "('t, 's, 'c) pyval \<Rightarrow> ('t, 's, 'c) pyval list" where
  "py_iter (PList xs) = xs"
| "py_iter (PTuple xs) = xs"
| "py_iter (PDict kvs) = map (\<lambda>kv. PStr (fst kv)) kvs"
| "py_iter (PStr s) = map (\<lambda>c. PStr [c]) s"
| "py_iter v = []"

lemma size_pyval_list_member:
  "x \<in> set xs \<Longrightarrow> size x < Suc (size_list size xs)"
  by (induction xs) auto

lemma size_pyval_items_member:
  "(k, v) \<in> set kvs \<Longrightarrow> size v < Suc (size_list (size_prod (\<lambda>_. 0) size) kvs)"
  by (induction kvs) auto

lemma is_iterable_py_iter_smaller:
  "\<not> is_mapping item \<Longrightarrow> is_iterable item \<Longrightarrow> x \<in> set (py_iter item) \<Longrightarrow> size x < size item"
  by (cases item) (auto simp: is_iterable_def dest: size_pyval_list_member)

lemma is_mapping_items_smaller:
  "is_mapping item \<Longrightarrow> kv \<in> set (items item) \<Longrightarrow> size (snd kv) < size item"
  by (cases item; cases kv) (auto dest: size_pyval_items_member)

text \<open>The nested generator \<^verbatim>\<open>iter_promises\<close> of \<^verbatim>\<open>Plan.promises\<close>, as the list of what it
  yields.\<close>

function iter_promises :: "('t, 's, 'c) pyval \<Rightarrow> ('t, 's, 'c) Promise list" where
  "iter_promises item =
     (if isinstance_Promise item then (case item of PPromise p \<Rightarrow> [p] | _ \<Rightarrow> [])
      else if is_mapping item then concat (map (\<lambda>kv. iter_promises (snd kv)) (items item))
      else if is_iterable item then concat (map iter_promises (py_iter item))
      else [])"
  by pat_completeness auto
termination
  by (relation "measure size")
     (auto dest: is_iterable_py_iter_smaller is_mapping_items_smaller)

declare iter_promises.simps [simp del]

text \<open>A Python \<^verbatim>\<open>set\<close> (or \<^verbatim>\<open>frozenset\<close>) built by adding the elements of a sequence one by
  one: an element equal (under the key that \<^verbatim>\<open>__eq__\<close> and \<^verbatim>\<open>__hash__\<close> compare) to one
  already present is dropped. The set is kept as the list of its elements; Python fixes no
  iteration order, the model iterates in insertion order.\<close>

definition set_add :: "('a \<Rightarrow> 'k) \<Rightarrow> 'a list \<Rightarrow> 'a \<Rightarrow> 'a list" where
  "set_add key acc x = (if key x \<in> key ` set acc then acc else acc @ [x])"

definition pyset :: "('a \<Rightarrow> 'k) \<Rightarrow> 'a list \<Rightarrow> 'a list" where
  "pyset key xs = foldl (set_add key) [] xs"

record ('f, 't, 's, 'c) Plan =
  func_or_task_type :: 'f
  subjects :: "'s Subject list"
  inputs :: "(string \<times> ('t, 's, 'c) pyval) list"

text \<open>\<^verbatim>\<open>Plan.__init__\<close>; \<open>'f\<close> is the categorized task (the result of \<^verbatim>\<open>_categorize\<close>).\<close>

definition Plan_init ::
  "'f \<Rightarrow> 's subject_arg list \<Rightarrow> (string \<times> ('t, 's, 'c) pyval) list \<Rightarrow> ('f, 't, 's, 'c) Plan" where
  "Plan_init f subjs ins =
     \<lparr>func_or_task_type = f, subjects = pyset primary (map as_subject subjs), inputs = ins\<rparr>"

text \<open>\<^verbatim>\<open>Plan.promises\<close>: the set of the promises of all input values.\<close>

definition promises :: "('f, 't, 's, 'c) Plan \<Rightarrow> ('t, 's, 'c) Promise list" where
  "promises plan = pyset Promise_key (concat (map (\<lambda>kv. iter_promises (snd kv)) (inputs plan)))"

datatype py_error = KeyError | AttributeError

text \<open>The first exception raised while a comprehension evaluates its elements in order.\<close>

fun sequence_sum :: "('e + 'a) list \<Rightarrow> 'e + 'a list" where
  "sequence_sum [] = Inr []"
| "sequence_sum (x # xs) =
     (case x of
        Inl e \<Rightarrow> Inl e
      | Inr v \<Rightarrow> (case sequence_sum xs of Inl e \<Rightarrow> Inl e | Inr vs \<Rightarrow> Inr (v # vs)))"

text \<open>The nested function \<^verbatim>\<open>bind_products\<close> of \<^verbatim>\<open>Plan.bind\<close>; \<^verbatim>\<open>products_by_promise[item]\<close>
  raises \<^verbatim>\<open>KeyError\<close> for a promise that is not a key.\<close>

function bind_products ::
  "(('t, 's, 'c) promise_key \<rightharpoonup> ('t, 's, 'c) pyval) \<Rightarrow> ('t, 's, 'c) pyval
     \<Rightarrow> py_error + ('t, 's, 'c) pyval" where
  "bind_products products_by_promise item =
     (if isinstance_Promise item then
        (case item of
           PPromise p \<Rightarrow>
             (case products_by_promise (Promise_key p) of
                None \<Rightarrow> Inl KeyError
              | Some v \<Rightarrow> Inr v)
         | _ \<Rightarrow> Inr item)
      else if is_mapping item then
        map_sum id PDict
          (sequence_sum
             (map (\<lambda>kv. map_sum id (Pair (fst kv)) (bind_products products_by_promise (snd kv)))
                (items item)))
      else if is_iterable item then
        map_sum id PList (sequence_sum (map (bind_products products_by_promise) (py_iter item)))
      else Inr item)"
  by pat_completeness auto
termination
  by (relation "measure (\<lambda>(m, item). size item)")
     (auto dest: is_iterable_py_iter_smaller is_mapping_items_smaller)

declare bind_products.simps [simp del]

text \<open>\<^verbatim>\<open>Plan.bind\<close>: the keyword arguments of the binding.\<close>

definition bind ::
  "('f, 't, 's, 'c) Plan \<Rightarrow> (('t, 's, 'c) promise_key \<rightharpoonup> ('t, 's, 'c) pyval)
     \<Rightarrow> py_error + (string \<times> ('t, 's, 'c) pyval) list" where
  "bind plan products_by_promise =
     sequence_sum
       (map (\<lambda>kv. map_sum id (Pair (fst kv)) (bind_products products_by_promise (snd kv)))
          (inputs plan))"

text \<open>The values \<^verbatim>\<open>Plan._key\<close> compares: what \<^verbatim>\<open>hashable\<close> returns, with every leaf replaced
  by what its \<^verbatim>\<open>__eq__\<close> compares (a promise by its key, a subject by its primary), so that
  Python's \<^verbatim>\<open>==\<close> on keys is equality of these values.\<close>

datatype ('t, 's, 'c) hval =
    HNone
  | HStr string
  | HObj 's
  | HSubject 's
  | HType 't
  | HPromise "('t, 's, 'c) promise_key"
  | HTuple "('t, 's, 'c) hval list"

fun leaf_key :: "('t, 's, 'c) pyval \<Rightarrow> ('t, 's, 'c) hval" where
  "leaf_key PNone = HNone"
| "leaf_key (PStr s) = HStr s"
| "leaf_key (PObj (Plain x)) = HObj x"
| "leaf_key (PObj (Wrapped sb)) = HSubject (primary sb)"
| "leaf_key (PType t) = HType t"
| "leaf_key (PPromise p) = HPromise (Promise_key p)"
| "leaf_key v = HNone"

text \<open>The nested function \<^verbatim>\<open>hashable\<close> of \<^verbatim>\<open>Plan._key\<close>; \<^verbatim>\<open>sorted\<close> orders the items of a
  mapping by their (distinct) keys.\<close>

function hashable :: "('t, 's, 'c) pyval \<Rightarrow> ('t, 's, 'c) hval" where
  "hashable v =
     (if is_mapping v then
        HTuple (map (\<lambda>kv. HTuple [HStr (fst kv), hashable (snd kv)]) (sort_key fst (items v)))
      else if is_iterable v then HTuple (map hashable (py_iter v))
      else leaf_key v)"
  by pat_completeness auto
termination
  by (relation "measure size")
     (auto dest: is_iterable_py_iter_smaller is_mapping_items_smaller)

declare hashable.simps [simp del]

type_synonym ('f, 't, 's, 'c) plan_key = "'f \<times> 's set \<times> ('t, 's, 'c) hval"

text \<open>\<^verbatim>\<open>Plan._key\<close>; \<^verbatim>\<open>Plan.__eq__\<close> and \<^verbatim>\<open>Plan.__hash__\<close> compare it. The frozenset of subjects
  is compared as the set of their primaries (\<^verbatim>\<open>Subject.__eq__\<close>).\<close>

definition Plan_key :: "('f, 't, 's, 'c) Plan \<Rightarrow> ('f, 't, 's, 'c) plan_key" where
  "Plan_key plan =
     (func_or_task_type plan, primary ` set (subjects plan), hashable (PDict (inputs plan)))"

definition Plan_eq :: "('f, 't, 's, 'c) Plan \<Rightarrow> ('f, 't, 's, 'c) Plan \<Rightarrow> bool" where
  "Plan_eq a b = (Plan_key a = Plan_key b)"

section \<open>The product mapper\<close>

text \<open>\<^verbatim>\<open>ProductMapper._promises\<close>: a dict keyed by promises, that is by their keys.\<close>

type_synonym ('f, 't, 's, 'c) ProductMapper =
  "('t, 's, 'c) promise_key \<rightharpoonup> ('f, 't, 's, 'c) Plan"

datatype registration_error = InvalidRegistrationError

text \<open>\<^verbatim>\<open>primary_subject == subject.primary\<close>, for the optional argument \<^verbatim>\<open>primary_subject\<close>:
  \<^verbatim>\<open>None\<close> equals no object, and \<^verbatim>\<open>Subject.__eq__\<close> is false on an object that is not a
  \<^verbatim>\<open>Subject\<close>.\<close>

fun eq_primary :: "'s subject_arg option \<Rightarrow> 's \<Rightarrow> bool" where
  "eq_primary None x = False"
| "eq_primary (Some (Plain y)) x = (y = x)"
| "eq_primary (Some (Wrapped sb)) x = False"

text \<open>The loop of \<^verbatim>\<open>register_promises\<close> over \<^verbatim>\<open>plan.subjects\<close>, on the pair of
  \<^verbatim>\<open>primary_promise\<close> and \<^verbatim>\<open>self._promises\<close>.\<close>

fun register_loop ::
  "'t \<Rightarrow> ('f, 't, 's, 'c) Plan \<Rightarrow> 's subject_arg option \<Rightarrow> 'c option \<Rightarrow> 's Subject list
     \<Rightarrow> ('t, 's, 'c) Promise option \<times> ('f, 't, 's, 'c) ProductMapper
     \<Rightarrow> ('t, 's, 'c) Promise option \<times> ('f, 't, 's, 'c) ProductMapper" where
  "register_loop pt plan primary_subject cfg [] st = st"
| "register_loop pt plan primary_subject cfg (sb # sbs) (primary_promise, m) =
     (let promise = Promise_init pt (Wrapped sb) cfg
      in register_loop pt plan primary_subject cfg sbs
           (if eq_primary primary_subject (primary sb) then Some promise else primary_promise,
            m(Promise_key promise \<mapsto> plan)))"

text \<open>\<^verbatim>\<open>ProductMapper.register_promises\<close>: the result (the exception raised or the value
  returned) and the mapper afterwards; the entries are stored before the check.\<close>

definition register_promises ::
  "('f, 't, 's, 'c) ProductMapper \<Rightarrow> 't \<Rightarrow> ('f, 't, 's, 'c) Plan \<Rightarrow> 's subject_arg option
     \<Rightarrow> 'c option
     \<Rightarrow> (registration_error + ('t, 's, 'c) Promise option) \<times> ('f, 't, 's, 'c) ProductMapper" where
  "register_promises m pt plan primary_subject cfg =
     (case register_loop pt plan primary_subject cfg (subjects plan) (None, m) of
        (primary_promise, m') \<Rightarrow>
          if primary_subject \<noteq> None \<and> primary_promise = None
          then (Inl InvalidRegistrationError, m')
          else (Inr primary_promise, m'))"

text \<open>\<^verbatim>\<open>ProductMapper.promised\<close>.\<close>

definition promised ::
  "('f, 't, 's, 'c) ProductMapper \<Rightarrow> ('t, 's, 'c) Promise \<Rightarrow> ('f, 't, 's, 'c) Plan option" where
  "promised m promise = m (Promise_key promise)"

text \<open>The re-registration loop that ends \<^verbatim>\<open>LocalScheduler.execution_graph\<close>:
  \<^verbatim>\<open>for finalized_plan in finalized_plans: register_promises(product_type, finalized_plan)\<close>.\<close>

fun reregister ::
  "('f, 't, 's, 'c) ProductMapper \<Rightarrow> 't \<Rightarrow> ('f, 't, 's, 'c) Plan list
     \<Rightarrow> (registration_error + unit) \<times> ('f, 't, 's, 'c) ProductMapper" where
  "reregister m pt [] = (Inr (), m)"
| "reregister m pt (finalized_plan # finalized_plans) =
     (case register_promises m pt finalized_plan None None of
        (Inl e, m') \<Rightarrow> (Inl e, m')
      | (Inr r, m') \<Rightarrow> reregister m' pt finalized_plans)"

section \<open>Example values\<close>

text \<open>Concrete plans, with strings for tasks and product types and numbers for subjects.\<close>

definition plan_A :: "(string, string, nat, nat) Plan" where
  "plan_A = Plan_init ''compile'' [Plain 1, Wrapped \<lparr>primary = 2, alternate = Some 7\<rparr>] []"

definition plan_B :: "(string, string, nat, nat) Plan" where
  "plan_B = Plan_init ''aggregate'' [Plain 2, Plain 3] []"

section \<open>The planner registry and the requirement solver\<close>

text \<open>
  A task planner: its identity, \<^verbatim>\<open>goal_name\<close> and \<^verbatim>\<open>product_types\<close>, a dict from output
  product types to requirements in disjunctive normal form (a list of clauses that are
  ORed, each a list of product types that are ANDed). Dicts are association lists in
  iteration order.
\<close>

record ('p, 't) TaskPlanner =
  planner_id :: 'p
  goal_name :: string
  product_types :: "('t \<times> 't list list) list"

text \<open>The tables of \<^verbatim>\<open>Planners\<close>; \<open>product_requirements\<close> is a \<^verbatim>\<open>defaultdict(dict)\<close>, so a
  product type without an entry has the empty dict.\<close>

record ('p, 't) Planners =
  planners_by_goal_name :: "string \<Rightarrow> 'p list"
  product_requirements :: "'t \<Rightarrow> ('p \<times> 't list list) list"
  output_products :: "'t set"

text \<open>\<^verbatim>\<open>d[k] = v\<close> on a dict.\<close>

fun dict_set :: "('k \<times> 'v) list \<Rightarrow> 'k \<Rightarrow> 'v \<Rightarrow> ('k \<times> 'v) list" where
  "dict_set [] k v = [(k, v)]"
| "dict_set (kv # kvs) k v = (if fst kv = k then (k, v) # kvs else kv # dict_set kvs k v)"

text \<open>\<^verbatim>\<open>Planners.__init__\<close>: the inner loop over \<^verbatim>\<open>planner.product_types.items()\<close>, then the
  loop over the planners.\<close>

definition add_product_type ::
  "'p \<Rightarrow> ('p, 't) Planners \<Rightarrow> 't \<times> 't list list \<Rightarrow> ('p, 't) Planners" where
  "add_product_type planner reg entry =
     reg\<lparr>product_requirements :=
           (product_requirements reg)
             (fst entry := dict_set (product_requirements reg (fst entry)) planner (snd entry)),
         output_products := insert (fst entry) (output_products reg)\<rparr>"

definition add_planner :: "('p, 't) Planners \<Rightarrow> ('p, 't) TaskPlanner \<Rightarrow> ('p, 't) Planners" where
  "add_planner reg planner =
     foldl (add_product_type (planner_id planner))
       (reg\<lparr>planners_by_goal_name :=
              (planners_by_goal_name reg)
                (goal_name planner :=
                   set_add (\<lambda>p. p) (planners_by_goal_name reg (goal_name planner))
                     (planner_id planner))\<rparr>)
       (product_types planner)"

definition Planners_init :: "('p, 't) TaskPlanner list \<Rightarrow> ('p, 't) Planners" where
  "Planners_init planners =
     foldl add_planner
       \<lparr>planners_by_goal_name = (\<lambda>g. []), product_requirements = (\<lambda>t. []),
        output_products = {}\<rparr>
       planners"

text \<open>
  The two accumulators the solver mutates: \<^verbatim>\<open>fully_consumed\<close>, a set of product types, and
  \<^verbatim>\<open>partially_consumed_candidates\<close>, a \<^verbatim>\<open>defaultdict\<close> of \<^verbatim>\<open>defaultdict(set)\<close> from a consumed
  product and a planner to the requirements the planner was missing.
\<close>

type_synonym ('p, 't) partials = "'t \<rightharpoonup> ('p \<rightharpoonup> 't set)"

type_synonym ('p, 't) acc = "'t set \<times> ('p, 't) partials"

text \<open>\<^verbatim>\<open>partially_consumed_candidates[consumed_product][planner].update(unconsumed)\<close>.\<close>

definition record_partial ::
  "'p \<Rightarrow> 't set \<Rightarrow> ('p, 't) partials \<Rightarrow> 't \<Rightarrow> ('p, 't) partials" where
  "record_partial planner unconsumed pcc consumed_product =
     (let by_planner = (case pcc consumed_product of None \<Rightarrow> Map.empty | Some d \<Rightarrow> d);
          missing = (case by_planner planner of None \<Rightarrow> {} | Some u \<Rightarrow> u)
      in pcc(consumed_product \<mapsto> by_planner(planner \<mapsto> missing \<union> unconsumed)))"

text \<open>
  The solver is recursive without a bound, so the model counts the depth of the recursion:
  a call that would recurse deeper than its fuel has no result (\<open>None\<close>). The functions
  below take as \<open>rec\<close> the recursive call \<^verbatim>\<open>self._apply_product_requirements\<close> with the inputs
  fixed and the fuel that is left.

  The list comprehension
  \<^verbatim>\<open>[self._apply_product_requirements(product_req, ...) for product_req in anded_clause]\<close>:
\<close>

fun apply_each ::
  "('t \<Rightarrow> ('p, 't) acc \<Rightarrow> (bool \<times> ('p, 't) acc) option) \<Rightarrow> 't list \<Rightarrow> ('p, 't) acc
     \<Rightarrow> (bool list \<times> ('p, 't) acc) option" where
  "apply_each rec [] st = Some ([], st)"
| "apply_each rec (product_req # reqs) st =
     (case rec product_req st of
        None \<Rightarrow> None
      | Some (match, st') \<Rightarrow>
          (case apply_each rec reqs st' of
             None \<Rightarrow> None
           | Some (matched, st'') \<Rightarrow> Some (match # matched, st'')))"

text \<open>\<^verbatim>\<open>Planners._apply_product_requirement_clauses\<close>.\<close>

fun apply_product_requirement_clauses ::
  "('t \<Rightarrow> ('p, 't) acc \<Rightarrow> (bool \<times> ('p, 't) acc) option) \<Rightarrow> 'p \<Rightarrow> 't list list
     \<Rightarrow> ('p, 't) acc \<Rightarrow> (bool \<times> ('p, 't) acc) option" where
  "apply_product_requirement_clauses rec planner [] st = Some (False, st)"
| "apply_product_requirement_clauses rec planner (anded_clause # ored_clauses) st =
     (case apply_each rec anded_clause st of
        None \<Rightarrow> None
      | Some (matched, (fully_consumed, pcc)) \<Rightarrow>
          (let matched_count = length (filter (\<lambda>match. match) matched) in
           if matched_count = length anded_clause then
             Some (True, (fully_consumed \<union> set anded_clause, pcc))
           else if matched_count > 0 then
             (let consumed = pyset (\<lambda>r. r) (map fst (filter snd (zip anded_clause matched)));
                  unconsumed = set (map fst (filter (\<lambda>rm. \<not> snd rm) (zip anded_clause matched)))
              in apply_product_requirement_clauses rec planner ored_clauses
                   (fully_consumed, foldl (record_partial planner unconsumed) pcc consumed))
           else apply_product_requirement_clauses rec planner ored_clauses (fully_consumed, pcc)))"

text \<open>The loop of \<^verbatim>\<open>_apply_product_requirements\<close> over the planners of the output product:
  \<^verbatim>\<open>matched |= self._apply_product_requirement_clauses(...)\<close>, which evaluates every planner.\<close>

fun apply_planners ::
  "('t \<Rightarrow> ('p, 't) acc \<Rightarrow> (bool \<times> ('p, 't) acc) option) \<Rightarrow> ('p \<times> 't list list) list
     \<Rightarrow> bool \<Rightarrow> ('p, 't) acc \<Rightarrow> (bool \<times> ('p, 't) acc) option" where
  "apply_planners rec [] matched st = Some (matched, st)"
| "apply_planners rec (entry # entries) matched st =
     (case apply_product_requirement_clauses rec (fst entry) (snd entry) st of
        None \<Rightarrow> None
      | Some (m, st') \<Rightarrow> apply_planners rec entries (matched \<or> m) st')"

text \<open>\<^verbatim>\<open>Planners._apply_product_requirements\<close>, with the depth of recursion it may use.\<close>

primrec apply_product_requirements ::
  "nat \<Rightarrow> ('p, 't) Planners \<Rightarrow> 't list \<Rightarrow> 't \<Rightarrow> ('p, 't) acc
     \<Rightarrow> (bool \<times> ('p, 't) acc) option" where
  "apply_product_requirements 0 reg input_products output_product_type st =
     (if output_product_type \<in> set input_products then Some (True, st)
      else if output_product_type \<notin> output_products reg then Some (False, st)
      else None)"
| "apply_product_requirements (Suc fuel) reg input_products output_product_type st =
     (if output_product_type \<in> set input_products then Some (True, st)
      else if output_product_type \<notin> output_products reg then Some (False, st)
      else apply_planners (apply_product_requirements fuel reg input_products)
             (product_requirements reg output_product_type) False st)"

text \<open>The loop of \<^verbatim>\<open>produced_types_for_subject\<close> over the candidate outputs.\<close>

fun solve_outputs ::
  "nat \<Rightarrow> ('p, 't) Planners \<Rightarrow> 't list \<Rightarrow> 't list \<Rightarrow> 't list \<times> ('p, 't) acc
     \<Rightarrow> ('t list \<times> ('p, 't) acc) option" where
  "solve_outputs fuel reg input_products [] st = Some st"
| "solve_outputs fuel reg input_products (output_product_type # outs) (producible, st) =
     (case apply_product_requirements fuel reg input_products output_product_type st of
        None \<Rightarrow> None
      | Some (ok, st') \<Rightarrow>
          solve_outputs fuel reg input_products outs
            (if ok then producible @ [output_product_type] else producible, st'))"

datatype ('p, 't, 's) solver_error =
  PartiallyConsumedInputsError 't "'s subject_arg" "('p, 't) partials"

text \<open>\<^verbatim>\<open>Planners.produced_types_for_subject\<close>. \<open>for_subject\<close> is \<^verbatim>\<open>Products.for_subject\<close>, which is
  not part of this file: a parameter giving the native product types of a subject. The
  comprehension keeps the entries whose product is not in \<^verbatim>\<open>fully_consumed\<close>; the error is
  raised when the resulting dict is not empty, with the loop variable
  \<^verbatim>\<open>output_product_type\<close>, that is the last candidate.\<close>

definition produced_types_for_subject ::
  "nat \<Rightarrow> ('s subject_arg \<Rightarrow> 't list) \<Rightarrow> ('p, 't) Planners \<Rightarrow> 's subject_arg \<Rightarrow> 't list
     \<Rightarrow> (('p, 't, 's) solver_error + 't list) option" where
  "produced_types_for_subject fuel for_subject reg subj output_product_types =
     (case solve_outputs fuel reg (for_subject subj) output_product_types ([], ({}, Map.empty)) of
        None \<Rightarrow> None
      | Some (producible_output_types, (fully_consumed, pcc)) \<Rightarrow>
          (let partially_consumed = pcc |` (- fully_consumed) in
           if partially_consumed \<noteq> Map.empty then
             Some (Inl (PartiallyConsumedInputsError (last output_product_types) subj
                          partially_consumed))
           else Some (Inr producible_output_types)))"

text \<open>The loop of \<^verbatim>\<open>Planners.for_product_type_and_subject\<close>, as the list of the planners it
  yields; \<open>type_of\<close> is Python's \<^verbatim>\<open>type\<close> on configurations. Each planner starts from an empty
  \<^verbatim>\<open>fully_consumed\<close>; the partially consumed candidates are shared and never read.\<close>

fun candidate_planners ::
  "nat \<Rightarrow> ('c \<Rightarrow> 't) \<Rightarrow> ('p, 't) Planners \<Rightarrow> 't list \<Rightarrow> 'c option
     \<Rightarrow> ('p \<times> 't list list) list \<Rightarrow> ('p, 't) partials \<Rightarrow> 'p list option" where
  "candidate_planners fuel type_of reg input_products cfg [] pcc = Some []"
| "candidate_planners fuel type_of reg input_products cfg (entry # entries) pcc =
     (case apply_product_requirement_clauses
             (apply_product_requirements fuel reg input_products) (fst entry) (snd entry)
             ({}, pcc) of
        None \<Rightarrow> None
      | Some (ok, (fully_consumed, pcc')) \<Rightarrow>
          (case candidate_planners fuel type_of reg input_products cfg entries pcc' of
             None \<Rightarrow> None
           | Some planners \<Rightarrow>
               Some (if ok \<and> (case cfg of None \<Rightarrow> True | Some c \<Rightarrow> type_of c \<in> fully_consumed)
                     then fst entry # planners else planners)))"

definition for_product_type_and_subject ::
  "nat \<Rightarrow> ('s subject_arg \<Rightarrow> 't list) \<Rightarrow> ('c \<Rightarrow> 't) \<Rightarrow> ('p, 't) Planners \<Rightarrow> 't
     \<Rightarrow> 's subject_arg \<Rightarrow> 'c option \<Rightarrow> 'p list option" where
  "for_product_type_and_subject fuel for_subject type_of reg pt subj cfg =
     candidate_planners fuel type_of reg (for_subject subj) cfg (product_requirements reg pt)
       Map.empty"

text \<open>The requirement graph that the solver walks: an edge from a requirement to an output
  product type that is not native, is an output of some planner, and has the requirement
  in one of its clauses.\<close>

definition requirement_edges :: "('p, 't) Planners \<Rightarrow> 't list \<Rightarrow> ('t \<times> 't) set" where
  "requirement_edges reg input_products =
     {(req, out). out \<notin> set input_products \<and> out \<in> output_products reg \<and>
        (\<exists>entry \<in> set (product_requirements reg out). \<exists>clause \<in> set (snd entry). req \<in> set clause)}"

text \<open>One callback answers at least as favourably as another: whenever the first returns,
  the second returns too (from any accumulators), and with \<open>True\<close> if the first did.\<close>

definition no_less_producible ::
  "('t \<Rightarrow> ('p, 't) acc \<Rightarrow> (bool \<times> ('p, 't) acc) option)
     \<Rightarrow> ('t \<Rightarrow> ('p, 't) acc \<Rightarrow> (bool \<times> ('p, 't) acc) option) \<Rightarrow> bool" where
  "no_less_producible rec rec' =
     (\<forall>x st b st1 st'. rec x st = Some (b, st1) \<longrightarrow>
        (\<exists>b' st1'. rec' x st' = Some (b', st1') \<and> (b \<longrightarrow> b')))"

text \<open>Two planners whose requirements refer to each other.\<close>

definition cyclic_planners :: "(string, string) Planners" where
  "cyclic_planners =
     Planners_init
       [\<lparr>planner_id = ''P'', goal_name = ''compile'', product_types = [(''A'', [[''B'']])]\<rparr>,
        \<lparr>planner_id = ''Q'', goal_name = ''compile'', product_types = [(''B'', [[''A'']])]\<rparr>]"

text \<open>What the solver answers for an output product type, started from empty accumulators
  (the answer does not depend on the accumulators, see \<open>apply_product_requirements_judged\<close>).\<close>

definition judged :: "nat \<Rightarrow> ('p, 't) Planners \<Rightarrow> 't list \<Rightarrow> 't \<Rightarrow> bool option" where
  "judged fuel reg input_products output_product_type =
     map_option fst
       (apply_product_requirements fuel reg input_products output_product_type ({}, Map.empty))"

text \<open>A registry without cycles: a generator of sources from Thrift files and a compiler
  that needs sources and dependencies, or else precompiled classes.\<close>

definition example_planners :: "(string, string) Planners" where
  "example_planners =
     Planners_init
       [\<lparr>planner_id = ''ThriftGen'', goal_name = ''gen'',
         product_types = [(''Sources'', [[''Thrift'']])]\<rparr>,
        \<lparr>planner_id = ''Javac'', goal_name = ''compile'',
         product_types = [(''Classes'', [[''Sources'', ''Deps''], [''Precompiled'']])]\<rparr>]"

text \<open>What the entries of the partially consumed accumulator mean, for the judgement \<open>J\<close> of
  the solver: a consumed product is producible, and the set recorded for it under a
  planner is a non-empty set of requirements that are not producible, each one with the
  consumed product in a clause of that planner.\<close>

definition partials_sound ::
  "('t \<Rightarrow> bool option) \<Rightarrow> ('p, 't) Planners \<Rightarrow> ('p, 't) partials \<Rightarrow> bool" where
  "partials_sound J reg pcc =
     (\<forall>c d planner U. pcc c = Some d \<and> d planner = Some U \<longrightarrow>
        J c = Some True \<and> U \<noteq> {} \<and>
        (\<forall>u \<in> U. J u = Some False \<and>
           (\<exists>out clauses clause. (planner, clauses) \<in> set (product_requirements reg out)
              \<and> clause \<in> set clauses \<and> c \<in> set clause \<and> u \<in> set clause)))"

text \<open>A recursive call that answers as \<open>J\<close> does and keeps the accumulator sound.\<close>

definition rec_sound ::
  "('t \<Rightarrow> bool option) \<Rightarrow> ('p, 't) Planners
     \<Rightarrow> ('t \<Rightarrow> ('p, 't) acc \<Rightarrow> (bool \<times> ('p, 't) acc) option) \<Rightarrow> bool" where
  "rec_sound J reg rec =
     (\<forall>x st b st'. rec x st = Some (b, st') \<longrightarrow>
        J x = Some b \<and> (partials_sound J reg (snd st) \<longrightarrow> partials_sound J reg (snd st')))"

section \<open>The local scheduler\<close>

text \<open>
  The planner of a candidate plan: a registered planner or the synthetic
  \<^verbatim>\<open>LocalScheduler.NoPlanner\<close>.
\<close>

datatype 'p planner_ref = Planner 'p | NoPlanner

text \<open>The state of a \<^verbatim>\<open>LocalScheduler\<close> that planning changes: \<^verbatim>\<open>_product_mapper\<close> and
  \<^verbatim>\<open>_plans_by_product_type_by_planner\<close> (a \<^verbatim>\<open>defaultdict\<close> of \<^verbatim>\<open>defaultdict(OrderedSet)\<close>).\<close>

record ('p, 'f, 't, 's, 'c) scheduler_state =
  product_mapper :: "('f, 't, 's, 'c) ProductMapper"
  plans_by_product_type_by_planner :: "'p planner_ref \<Rightarrow> 't \<Rightarrow> ('f, 't, 's, 'c) Plan list"

text \<open>The exceptions that leave \<^verbatim>\<open>LocalScheduler.promise\<close>; \<open>PlannerRaised\<close> is whatever a
  planner's \<^verbatim>\<open>plan\<close> raised.\<close>

datatype ('p, 't, 's, 'e) scheduling_error =
    NoProducersError 't "'s subject_arg"
  | ConflictingProducersError 't "'s subject_arg" "'p planner_ref list"
  | SchedulingError
  | PlannerRaised 'e

text \<open>
  What the scheduler is built from and calls out to. \<open>graph\<close> is \<^verbatim>\<open>self._graph.resolve\<close>,
  \<open>native_products\<close> is \<^verbatim>\<open>Products.for_subject\<close>, \<open>config_type\<close> is \<^verbatim>\<open>type\<close> on configurations,
  \<open>lift_native_product\<close> is the task of the synthetic plan; none of them is part of this
  file. \<open>plan_method\<close> is \<^verbatim>\<open>planner.plan(self, product_type, subject, configuration)\<close>: code
  of the planner, which may call back into the scheduler, so it takes the scheduler's state
  and returns the state it leaves with what it returned (\<open>None\<close> for no plan) or raised.
\<close>

record ('a, 'p, 'f, 't, 's, 'c, 'e) scheduler_env =
  graph :: "'a \<Rightarrow> 's"
  planners :: "('p, 't) Planners"
  native_products :: "'s subject_arg \<Rightarrow> 't list"
  config_type :: "'c \<Rightarrow> 't"
  lift_native_product :: 'f
  plan_method ::
    "'p \<Rightarrow> ('p, 'f, 't, 's, 'c) scheduler_state \<Rightarrow> 't \<Rightarrow> 's subject_arg \<Rightarrow> 'c option
       \<Rightarrow> ('e + ('f, 't, 's, 'c) Plan option) \<times> ('p, 'f, 't, 's, 'c) scheduler_state"

text \<open>The \<^verbatim>\<open>subject\<close> argument of \<^verbatim>\<open>promise\<close>: an \<^verbatim>\<open>Address\<close>, which is resolved through the
  graph, or anything else.\<close>

datatype ('a, 's) promise_subject = AnAddress 'a | NotAnAddress "'s subject_arg"

definition resolve_subject :: "('a \<Rightarrow> 's) \<Rightarrow> ('a, 's) promise_subject \<Rightarrow> 's subject_arg" where
  "resolve_subject g x = (case x of AnAddress a \<Rightarrow> Plain (g a) | NotAnAddress item \<Rightarrow> item)"

text \<open>
  The first loop of \<^verbatim>\<open>promise\<close>: it draws the planners from the generator
  \<^verbatim>\<open>for_product_type_and_subject\<close> one at a time (so the solver runs for a planner only
  after the planners before it were asked for their plans), calls \<^verbatim>\<open>plan\<close> and keeps the
  plans that are not \<^verbatim>\<open>None\<close>. The result is \<open>None\<close> when the solver has no result.
\<close>

fun planner_candidates ::
  "nat \<Rightarrow> ('a, 'p, 'f, 't, 's, 'c, 'e) scheduler_env \<Rightarrow> 't \<Rightarrow> 's subject_arg \<Rightarrow> 'c option
     \<Rightarrow> ('p \<times> 't list list) list \<Rightarrow> ('p, 't) partials \<Rightarrow> ('p, 'f, 't, 's, 'c) scheduler_state
     \<Rightarrow> (('e + ('p planner_ref \<times> ('f, 't, 's, 'c) Plan) list)
           \<times> ('p, 'f, 't, 's, 'c) scheduler_state) option" where
  "planner_candidates fuel env pt subj cfg [] pcc st = Some (Inr [], st)"
| "planner_candidates fuel env pt subj cfg (entry # entries) pcc st =
     (case apply_product_requirement_clauses
             (apply_product_requirements fuel (planners env) (native_products env subj))
             (fst entry) (snd entry) ({}, pcc) of
        None \<Rightarrow> None
      | Some (ok, (fully_consumed, pcc')) \<Rightarrow>
          if ok \<and> (case cfg of None \<Rightarrow> True | Some c \<Rightarrow> config_type env c \<in> fully_consumed)
          then
            (case plan_method env (fst entry) st pt subj cfg of
               (Inl e, st') \<Rightarrow> Some (Inl e, st')
             | (Inr plan, st') \<Rightarrow>
                 (case planner_candidates fuel env pt subj cfg entries pcc' st' of
                    None \<Rightarrow> None
                  | Some (Inl e, st'') \<Rightarrow> Some (Inl e, st'')
                  | Some (Inr plans, st'') \<Rightarrow>
                      Some (Inr (case plan of
                                   None \<Rightarrow> plans
                                 | Some pl \<Rightarrow> (Planner (fst entry), pl) # plans), st'')))
          else planner_candidates fuel env pt subj cfg entries pcc' st)"

text \<open>The second loop of \<^verbatim>\<open>promise\<close>: one synthetic candidate for every native product type
  of the subject that equals the requested product type.\<close>

definition native_candidates ::
  "('a, 'p, 'f, 't, 's, 'c, 'e) scheduler_env \<Rightarrow> 't \<Rightarrow> 's subject_arg
     \<Rightarrow> ('p planner_ref \<times> ('f, 't, 's, 'c) Plan) list" where
  "native_candidates env pt subj =
     map (\<lambda>native_product_type.
            (NoPlanner,
             Plan_init (lift_native_product env) [subj]
               [(''subject'', PObj subj), (''product_type'', PType pt)]))
       (filter (\<lambda>native_product_type. native_product_type = pt) (native_products env subj))"

text \<open>The candidate list \<^verbatim>\<open>plans\<close> of \<^verbatim>\<open>promise\<close> when both loops have run.\<close>

definition candidates ::
  "nat \<Rightarrow> ('a, 'p, 'f, 't, 's, 'c, 'e) scheduler_env \<Rightarrow> 't \<Rightarrow> 's subject_arg \<Rightarrow> 'c option
     \<Rightarrow> ('p, 'f, 't, 's, 'c) scheduler_state
     \<Rightarrow> (('e + ('p planner_ref \<times> ('f, 't, 's, 'c) Plan) list)
           \<times> ('p, 'f, 't, 's, 'c) scheduler_state) option" where
  "candidates fuel env pt subj cfg st =
     (case planner_candidates fuel env pt subj cfg (product_requirements (planners env) pt)
             Map.empty st of
        None \<Rightarrow> None
      | Some (Inl e, st') \<Rightarrow> Some (Inl e, st')
      | Some (Inr plans, st') \<Rightarrow> Some (Inr (plans @ native_candidates env pt subj), st'))"

text \<open>\<^verbatim>\<open>self._plans_by_product_type_by_planner[planner][product_type].add(plan)\<close>.\<close>

definition record_plan ::
  "'p planner_ref \<Rightarrow> 't \<Rightarrow> ('f, 't, 's, 'c) Plan
     \<Rightarrow> ('p planner_ref \<Rightarrow> 't \<Rightarrow> ('f, 't, 's, 'c) Plan list)
     \<Rightarrow> ('p planner_ref \<Rightarrow> 't \<Rightarrow> ('f, 't, 's, 'c) Plan list)" where
  "record_plan planner pt plan table =
     table(planner := (table planner)(pt := set_add Plan_key (table planner pt) plan))"

text \<open>The end of \<^verbatim>\<open>promise\<close>: the decision on the candidate list and the registration.\<close>

definition resolve_candidates ::
  "'t \<Rightarrow> 's subject_arg \<Rightarrow> 'c option \<Rightarrow> ('p planner_ref \<times> ('f, 't, 's, 'c) Plan) list
     \<Rightarrow> ('p, 'f, 't, 's, 'c) scheduler_state
     \<Rightarrow> (('p, 't, 's, 'e) scheduling_error + ('t, 's, 'c) Promise option)
         \<times> ('p, 'f, 't, 's, 'c) scheduler_state" where
  "resolve_candidates pt subj cfg plans st =
     (if length plans > 1 then (Inl (ConflictingProducersError pt subj (map fst plans)), st)
      else if plans = [] then (Inl (NoProducersError pt subj), st)
      else
        (case plans ! 0 of
           (planner, plan) \<Rightarrow>
             (case register_promises (product_mapper st) pt plan (Some subj) cfg of
                (Inl InvalidRegistrationError, m) \<Rightarrow>
                  (Inl SchedulingError, st\<lparr>product_mapper := m\<rparr>)
              | (Inr primary_promise, m) \<Rightarrow>
                  (Inr primary_promise,
                   st\<lparr>product_mapper := m,
                      plans_by_product_type_by_planner :=
                        record_plan planner pt plan (plans_by_product_type_by_planner st)\<rparr>))))"

text \<open>\<^verbatim>\<open>LocalScheduler.promise\<close>: what it returns or raises and the state it leaves, or \<open>None\<close>
  when the solver has no result.\<close>

definition promise ::
  "nat \<Rightarrow> ('a, 'p, 'f, 't, 's, 'c, 'e) scheduler_env \<Rightarrow> ('p, 'f, 't, 's, 'c) scheduler_state
     \<Rightarrow> ('a, 's) promise_subject \<Rightarrow> 't \<Rightarrow> 'c option
     \<Rightarrow> ((('p, 't, 's, 'e) scheduling_error + ('t, 's, 'c) Promise option)
          \<times> ('p, 'f, 't, 's, 'c) scheduler_state) option" where
  "promise fuel env st x pt cfg =
     (let subj = resolve_subject (graph env) x;
          p = Promise_init pt subj cfg
      in if promised (product_mapper st) p \<noteq> None then Some (Inr (Some p), st)
         else
           (case candidates fuel env pt subj cfg st of
              None \<Rightarrow> None
            | Some (Inl e, st') \<Rightarrow> Some (Inl (PlannerRaised e), st')
            | Some (Inr plans, st') \<Rightarrow> Some (resolve_candidates pt subj cfg plans st')))"

text \<open>The candidates that a sequence of calls of \<^verbatim>\<open>plan\<close> contributes: a call is the planner,
  the state it was called in and what it returned; a call that returned \<^verbatim>\<open>None\<close> contributes
  nothing.\<close>

definition pairs_of_calls ::
  "('p \<times> 'st \<times> 'pl option) list \<Rightarrow> ('p planner_ref \<times> 'pl) list" where
  "pairs_of_calls calls =
     concat (map (\<lambda>c. case snd (snd c) of None \<Rightarrow> [] | Some pl \<Rightarrow> [(Planner (fst c), pl)]) calls)"

text \<open>Two schedulers for the examples: one over the registry \<open>example_planners\<close>, whose
  planners return a plan for the subject they are asked about, and one with a single planner
  \<open>P\<close> that needs nothing and returns a plan for another subject; and the state of a
  scheduler that has planned nothing yet.\<close>

definition example_env :: "(nat, string, string, string, nat, string, unit) scheduler_env" where
  "example_env =
     \<lparr>graph = (\<lambda>a. a), planners = example_planners,
      native_products = (\<lambda>s. [''Precompiled'']), config_type = (\<lambda>c. c),
      lift_native_product = ''lift_native_product'',
      plan_method = (\<lambda>p st pt subj cfg. (Inr (Some (Plan_init p [subj] [])), st))\<rparr>"

definition uncovering_env :: "(nat, string, string, string, nat, string, unit) scheduler_env" where
  "uncovering_env =
     \<lparr>graph = (\<lambda>a. a),
      planners = Planners_init
        [\<lparr>planner_id = ''P'', goal_name = ''compile'', product_types = [(''Classes'', [[]])]\<rparr>],
      native_products = (\<lambda>s. []), config_type = (\<lambda>c. c),
      lift_native_product = ''lift_native_product'',
      plan_method = (\<lambda>p st pt subj cfg. (Inr (Some (Plan_init p [Plain 20] [])), st))\<rparr>"

definition initial_state :: "(string, string, string, nat, string) scheduler_state" where
  "initial_state = \<lparr>product_mapper = Map.empty, plans_by_product_type_by_planner = (\<lambda>p t. [])\<rparr>"

section \<open>The execution graph\<close>

record ('f, 't, 's, 'c) ExecutionGraph =
  root_promises :: "('t, 's, 'c) Promise list"
  graph_product_mapper :: "('f, 't, 's, 'c) ProductMapper"

text \<open>
  What a walk has done so far: the set \<^verbatim>\<open>plans\<close> of the plans seen, a Python set of plans
  and so a set of plan keys, and the pairs yielded, in order.
\<close>

type_synonym ('f, 't, 's, 'c) walk_state =
  "('f, 't, 's, 'c) plan_key set \<times> (('t, 's, 'c) Promise \<times> ('f, 't, 's, 'c) Plan) list"

text \<open>The loops \<^verbatim>\<open>for pr in ...: for pl in self._walk_plan(pr, plans): yield pl\<close> of \<^verbatim>\<open>_walk_plan\<close>
  and of \<^verbatim>\<open>walk\<close>; \<open>rec\<close> is the recursive call. An exception ends the loop.\<close>

fun walk_promises ::
  "(('t, 's, 'c) Promise \<Rightarrow> ('f, 't, 's, 'c) walk_state
       \<Rightarrow> ((py_error + unit) \<times> ('f, 't, 's, 'c) walk_state) option)
     \<Rightarrow> ('t, 's, 'c) Promise list \<Rightarrow> ('f, 't, 's, 'c) walk_state
     \<Rightarrow> ((py_error + unit) \<times> ('f, 't, 's, 'c) walk_state) option" where
  "walk_promises rec [] st = Some (Inr (), st)"
| "walk_promises rec (pr # prs) st =
     (case rec pr st of
        None \<Rightarrow> None
      | Some (Inl e, st') \<Rightarrow> Some (Inl e, st')
      | Some (Inr u, st') \<Rightarrow> walk_promises rec prs st')"

text \<open>
  \<^verbatim>\<open>ExecutionGraph._walk_plan\<close>, with the depth of recursion it may use (\<open>None\<close> when it
  would go deeper). A promise without a plan gives \<^verbatim>\<open>plan = None\<close>, which is not in \<^verbatim>\<open>plans\<close>,
  and \<^verbatim>\<open>None.promises\<close> raises \<^verbatim>\<open>AttributeError\<close>.
\<close>

primrec walk_plan ::
  "nat \<Rightarrow> ('f, 't, 's, 'c) ProductMapper \<Rightarrow> ('t, 's, 'c) Promise \<Rightarrow> ('f, 't, 's, 'c) walk_state
     \<Rightarrow> ((py_error + unit) \<times> ('f, 't, 's, 'c) walk_state) option" where
  "walk_plan 0 m promise' st =
     (case promised m promise' of
        None \<Rightarrow> Some (Inl AttributeError, st)
      | Some plan \<Rightarrow> if Plan_key plan \<in> fst st then Some (Inr (), st) else None)"
| "walk_plan (Suc fuel) m promise' st =
     (case promised m promise' of
        None \<Rightarrow> Some (Inl AttributeError, st)
      | Some plan \<Rightarrow>
          if Plan_key plan \<in> fst st then Some (Inr (), st)
          else
            (case walk_promises (walk_plan fuel m) (promises plan)
                    (insert (Plan_key plan) (fst st), snd st) of
               None \<Rightarrow> None
             | Some (Inl e, st') \<Rightarrow> Some (Inl e, st')
             | Some (Inr u, st') \<Rightarrow> Some (Inr (), (fst st', snd st' @ [(promise', plan)]))))"

text \<open>\<^verbatim>\<open>ExecutionGraph.walk\<close>: whether it ended or raised, and the pairs it yielded.\<close>

definition walk ::
  "nat \<Rightarrow> ('f, 't, 's, 'c) ExecutionGraph
     \<Rightarrow> ((py_error + unit) \<times> (('t, 's, 'c) Promise \<times> ('f, 't, 's, 'c) Plan) list) option" where
  "walk fuel g =
     (case walk_promises (walk_plan fuel (graph_product_mapper g)) (root_promises g) ({}, []) of
        None \<Rightarrow> None
      | Some (r, st) \<Rightarrow> Some (r, snd st))"

text \<open>The edges of the graph of plans: from a plan to the plans that fulfil its promises.\<close>

definition fulfils ::
  "('f, 't, 's, 'c) ProductMapper \<Rightarrow> (('f, 't, 's, 'c) Plan \<times> ('f, 't, 's, 'c) Plan) set" where
  "fulfils m = {(plan, dep). \<exists>pr \<in> set (promises plan). promised m pr = Some dep}"

text \<open>The plans reachable from the root promises.\<close>

definition reachable_plans :: "('f, 't, 's, 'c) ExecutionGraph \<Rightarrow> ('f, 't, 's, 'c) Plan set" where
  "reachable_plans g =
     (fulfils (graph_product_mapper g))\<^sup>* ``
       {plan. \<exists>pr \<in> set (root_promises g). promised (graph_product_mapper g) pr = Some plan}"

text \<open>Every promise reachable from the roots resolves to a plan.\<close>

definition all_resolve :: "('f, 't, 's, 'c) ExecutionGraph \<Rightarrow> bool" where
  "all_resolve g =
     ((\<forall>pr \<in> set (root_promises g). promised (graph_product_mapper g) pr \<noteq> None)
      \<and> (\<forall>plan \<in> reachable_plans g. \<forall>pr \<in> set (promises plan).
            promised (graph_product_mapper g) pr \<noteq> None))"

text \<open>The graph of the reachable plans, with an edge from a plan to each plan that fulfils one
  of its promises; the execution graph is a DAG when it has no cycle.\<close>

definition plan_edges ::
  "('f, 't, 's, 'c) ExecutionGraph \<Rightarrow> (('f, 't, 's, 'c) Plan \<times> ('f, 't, 's, 'c) Plan) set" where
  "plan_edges g =
     {(plan, dep). plan \<in> reachable_plans g \<and> (plan, dep) \<in> fulfils (graph_product_mapper g)}"

text \<open>The promise keys that a key of \<^verbatim>\<open>Plan._key\<close> holds.\<close>

fun hkeys :: "('t, 's, 'c) hval \<Rightarrow> ('t, 's, 'c) promise_key set" where
  "hkeys (HPromise k) = {k}"
| "hkeys (HTuple xs) = (\<Union>x \<in> set xs. hkeys x)"
| "hkeys v = {}"

section \<open>What a walk yields\<close>

text \<open>The plans of a list of yielded pairs, as a Python set would hold them.\<close>

definition plan_keys ::
  "(('t, 's, 'c) Promise \<times> ('f, 't, 's, 'c) Plan) list \<Rightarrow> ('f, 't, 's, 'c) plan_key set" where
  "plan_keys ys = Plan_key ` snd ` set ys"

text \<open>A plan \<open>dep\<close> that a plan \<open>plan\<close> waits for lies on a cycle through \<open>plan\<close>: a plan equal to
  \<open>dep\<close> is reached from the sources \<open>R\<close> and reaches \<open>plan\<close>.\<close>

definition on_cycle ::
  "('f, 't, 's, 'c) ProductMapper \<Rightarrow> ('f, 't, 's, 'c) Plan set \<Rightarrow> ('f, 't, 's, 'c) Plan
     \<Rightarrow> ('f, 't, 's, 'c) Plan \<Rightarrow> bool" where
  "on_cycle m R dep plan =
     (\<exists>d. Plan_key d = Plan_key dep \<and> (\<exists>r \<in> R. (r, d) \<in> (fulfils m)\<^sup>*)
          \<and> (d, plan) \<in> (fulfils m)\<^sup>*)"

text \<open>Dependencies first: every plan of the list comes after the plans that fulfil its promises
  (they are in \<open>seen\<close> or earlier in the list), unless such a plan lies on a cycle through it.\<close>

fun dependencies_first ::
  "('f, 't, 's, 'c) ProductMapper \<Rightarrow> ('f, 't, 's, 'c) Plan set \<Rightarrow> ('f, 't, 's, 'c) plan_key set
     \<Rightarrow> (('t, 's, 'c) Promise \<times> ('f, 't, 's, 'c) Plan) list \<Rightarrow> bool" where
  "dependencies_first m R seen [] = True"
| "dependencies_first m R seen (y # ys) =
     ((\<forall>pr \<in> set (promises (snd y)). \<forall>dep. promised m pr = Some dep \<longrightarrow>
          Plan_key dep \<in> seen \<or> on_cycle m R dep (snd y))
      \<and> dependencies_first m R (insert (Plan_key (snd y)) seen) ys)"

text \<open>What a traversal from the sources \<open>R\<close> that started with the set \<open>seen\<close> has yielded: plans
  not seen before, each once, each with a promise it fulfils, each reached from a source, with
  all their dependencies seen by the end, dependencies first.\<close>

definition yields_ok ::
  "('f, 't, 's, 'c) ProductMapper \<Rightarrow> ('f, 't, 's, 'c) Plan set \<Rightarrow> ('f, 't, 's, 'c) plan_key set
     \<Rightarrow> (('t, 's, 'c) Promise \<times> ('f, 't, 's, 'c) Plan) list \<Rightarrow> bool" where
  "yields_ok m R seen ys =
     (plan_keys ys \<inter> seen = {}
      \<and> distinct (map (\<lambda>y. Plan_key (snd y)) ys)
      \<and> (\<forall>y \<in> set ys. promised m (fst y) = Some (snd y))
      \<and> (\<forall>y \<in> set ys. \<exists>r \<in> R. (r, snd y) \<in> (fulfils m)\<^sup>*)
      \<and> (\<forall>y \<in> set ys. \<forall>pr \<in> set (promises (snd y)).
            \<exists>dep. promised m pr = Some dep \<and> Plan_key dep \<in> seen \<union> plan_keys ys)
      \<and> dependencies_first m R seen ys)"

text \<open>A traversal step from the state \<open>st\<close> to the state \<open>st'\<close>.\<close>

definition post ::
  "('f, 't, 's, 'c) ProductMapper \<Rightarrow> ('f, 't, 's, 'c) Plan set \<Rightarrow> ('f, 't, 's, 'c) walk_state
     \<Rightarrow> ('f, 't, 's, 'c) walk_state \<Rightarrow> bool" where
  "post m R st st' =
     (\<exists>ys. snd st' = snd st @ ys \<and> fst st' = fst st \<union> plan_keys ys \<and> yields_ok m R (fst st) ys)"

text \<open>The plans that fulfil a list of promises.\<close>

definition plans_of ::
  "('f, 't, 's, 'c) ProductMapper \<Rightarrow> ('t, 's, 'c) Promise list \<Rightarrow> ('f, 't, 's, 'c) Plan set" where
  "plans_of m prs = {plan. \<exists>pr \<in> set prs. promised m pr = Some plan}"

text \<open>An execution graph: the classes of a library (subject 10) need the classes of its
  dependency (subject 20), whose plan is also registered for the documentation of 20; the
  classes of 10 and the documentation of 20 are requested.\<close>

definition plan_dep :: "(string, string, nat, nat) Plan" where
  "plan_dep = Plan_init ''javac'' [Plain 20] [(''sources'', PStr ''src'')]"

definition plan_lib :: "(string, string, nat, nat) Plan" where
  "plan_lib =
     Plan_init ''javac'' [Plain 10]
       [(''sources'', PStr ''src''),
        (''classpath'', PList [PPromise (Promise_init ''Classes'' (Plain 20) None)])]"

definition example_graph :: "(string, string, nat, nat) ExecutionGraph" where
  "example_graph =
     \<lparr>root_promises =
        [Promise_init ''Classes'' (Plain 10) None, Promise_init ''Docs'' (Plain 20) None],
      graph_product_mapper =
        [(''Classes'', 10, None) \<mapsto> plan_lib, (''Classes'', 20, None) \<mapsto> plan_dep,
         (''Docs'', 20, None) \<mapsto> plan_dep]\<rparr>"

section \<open>Properties of promises and of the product mapper\<close>

text \<open>
  C5. Promise identity ignores the alternate subject: two promises for the same product
  type, the same primary and the same configuration are equal under \<^verbatim>\<open>Promise.__eq__\<close> and
  have the same hash, whatever their alternates; the key is the triple of the product
  type, the subject's primary and the configuration, and \<^verbatim>\<open>Promise.__eq__\<close> is equality of
  these triples. The same holds of \<^verbatim>\<open>Subject.__eq__\<close> and \<^verbatim>\<open>Subject.__hash__\<close>.
\<close>

theorem promise_identity_ignores_alternate:
  "Promise_eq (Promise_init P (Wrapped \<lparr>primary = x, alternate = a\<rparr>) c)
              (Promise_init P (Wrapped \<lparr>primary = x, alternate = b\<rparr>) c)
   \<and> Promise_hash h (Promise_init P (Wrapped \<lparr>primary = x, alternate = a\<rparr>) c)
       = Promise_hash h (Promise_init P (Wrapped \<lparr>primary = x, alternate = b\<rparr>) c)
   \<and> Promise_key (Promise_init P (Wrapped \<lparr>primary = x, alternate = a\<rparr>) c) = (P, x, c)
   \<and> Subject_eq \<lparr>primary = x, alternate = a\<rparr> \<lparr>primary = x, alternate = b\<rparr>
   \<and> Subject_hash g \<lparr>primary = x, alternate = a\<rparr> = Subject_hash g \<lparr>primary = x, alternate = b\<rparr>
   \<and> Promise_eq p q = ((product_type p, primary (subject p), configuration p)
                        = (product_type q, primary (subject q), configuration q))"
  by (simp add: Promise_eq_def Promise_hash_def Promise_key_def Promise_init_def as_subject_def
      Subject_eq_def Subject_hash_def)

lemma register_loop_map:
  "snd (register_loop pt plan ps cfg sbs (pp, m)) k =
     (if k \<in> (\<lambda>sb. Promise_key (Promise_init pt (Wrapped sb) cfg)) ` set sbs then Some plan else m k)"
  by (induction sbs arbitrary: pp m) (auto simp: Let_def)

lemma register_loop_none:
  "(fst (register_loop pt plan ps cfg sbs (pp, m)) = None) =
     (pp = None \<and> \<not> (\<exists>sb \<in> set sbs. eq_primary ps (primary sb)))"
  by (induction sbs arbitrary: pp m) (auto simp: Let_def)

lemma register_loop_some:
  "fst (register_loop pt plan ps cfg sbs (pp, m)) = Some p \<Longrightarrow>
     pp = Some p \<or> (\<exists>sb \<in> set sbs. eq_primary ps (primary sb) \<and> p = Promise_init pt (Wrapped sb) cfg)"
  by (induction sbs arbitrary: pp m) (auto simp: Let_def split: if_splits)

lemma register_loop_fst_indep:
  "fst (register_loop pt plan ps cfg sbs (pp, m)) = fst (register_loop pt plan ps cfg sbs (pp, m'))"
  by (induction sbs arbitrary: pp m m') (auto simp: Let_def)

text \<open>
  C8. \<^verbatim>\<open>register_promises\<close> stores \<open>Promise(product_type, s, configuration) \<mapsto> plan\<close> for
  every subject \<open>s\<close> of the plan and leaves every other key as it was. It raises
  \<^verbatim>\<open>InvalidRegistrationError\<close> exactly when a primary subject was supplied and no subject of
  the plan has it as its primary. Otherwise it returns \<^verbatim>\<open>None\<close> when no primary subject was
  supplied, and when one was supplied the promise built for a subject of the plan with
  that primary; for a primary subject \<open>x\<close> the key of that promise is
  \<open>(product_type, x, configuration)\<close>.
\<close>

theorem register_promises_spec:
  "(\<forall>sb \<in> set (subjects plan).
      promised (snd (register_promises m pt plan ps cfg)) (Promise_init pt (Wrapped sb) cfg) = Some plan)
   \<and> (\<forall>k. k \<notin> (\<lambda>sb. Promise_key (Promise_init pt (Wrapped sb) cfg)) ` set (subjects plan)
        \<longrightarrow> snd (register_promises m pt plan ps cfg) k = m k)
   \<and> ((fst (register_promises m pt plan ps cfg) = Inl InvalidRegistrationError)
        = (ps \<noteq> None \<and> \<not> (\<exists>sb \<in> set (subjects plan). eq_primary ps (primary sb))))
   \<and> (ps = None \<longrightarrow> fst (register_promises m pt plan ps cfg) = Inr None)
   \<and> (ps \<noteq> None \<and> (\<exists>sb \<in> set (subjects plan). eq_primary ps (primary sb)) \<longrightarrow>
        (\<exists>sb \<in> set (subjects plan). eq_primary ps (primary sb)
           \<and> fst (register_promises m pt plan ps cfg) = Inr (Some (Promise_init pt (Wrapped sb) cfg))))
   \<and> (\<forall>x. ps = Some (Plain x) \<and> x \<in> primary ` set (subjects plan) \<longrightarrow>
        (\<exists>p. fst (register_promises m pt plan ps cfg) = Inr (Some p)
           \<and> Promise_key p = (pt, x, cfg) \<and> subject p \<in> set (subjects plan)))"
proof -
  obtain pp m' where loop: "register_loop pt plan ps cfg (subjects plan) (None, m) = (pp, m')"
    by (cases "register_loop pt plan ps cfg (subjects plan) (None, m)")
  have m': "m' k = (if k \<in> (\<lambda>sb. Promise_key (Promise_init pt (Wrapped sb) cfg)) ` set (subjects plan)
                    then Some plan else m k)" for k
    using register_loop_map [of pt plan ps cfg "subjects plan" None m k] loop by simp
  have none: "(pp = None) = (\<not> (\<exists>sb \<in> set (subjects plan). eq_primary ps (primary sb)))"
    using register_loop_none [of pt plan ps cfg "subjects plan" None m] loop by simp
  have some: "pp = Some p \<Longrightarrow>
      \<exists>sb \<in> set (subjects plan). eq_primary ps (primary sb) \<and> p = Promise_init pt (Wrapped sb) cfg" for p
    using register_loop_some [of pt plan ps cfg "subjects plan" None m p] loop by simp
  have r: "register_promises m pt plan ps cfg =
      (if ps \<noteq> None \<and> pp = None then (Inl InvalidRegistrationError, m') else (Inr pp, m'))"
    by (simp add: register_promises_def loop)
  have c1: "\<forall>sb \<in> set (subjects plan).
      promised (snd (register_promises m pt plan ps cfg)) (Promise_init pt (Wrapped sb) cfg) = Some plan"
    by (auto simp: r promised_def m')
  have c2: "\<forall>k. k \<notin> (\<lambda>sb. Promise_key (Promise_init pt (Wrapped sb) cfg)) ` set (subjects plan)
        \<longrightarrow> snd (register_promises m pt plan ps cfg) k = m k"
    by (auto simp: r m')
  have c3: "(fst (register_promises m pt plan ps cfg) = Inl InvalidRegistrationError)
        = (ps \<noteq> None \<and> \<not> (\<exists>sb \<in> set (subjects plan). eq_primary ps (primary sb)))"
    using none by (auto simp: r)
  have c4: "ps = None \<longrightarrow> fst (register_promises m pt plan ps cfg) = Inr None"
  proof
    assume n: "ps = None"
    with none have "pp = None" by simp
    with r n show "fst (register_promises m pt plan ps cfg) = Inr None" by simp
  qed
  have c5: "ps \<noteq> None \<and> (\<exists>sb \<in> set (subjects plan). eq_primary ps (primary sb)) \<longrightarrow>
        (\<exists>sb \<in> set (subjects plan). eq_primary ps (primary sb)
           \<and> fst (register_promises m pt plan ps cfg) = Inr (Some (Promise_init pt (Wrapped sb) cfg)))"
  proof
    assume a: "ps \<noteq> None \<and> (\<exists>sb \<in> set (subjects plan). eq_primary ps (primary sb))"
    then obtain p where p: "pp = Some p" using none by (cases pp) auto
    from some [OF p] show "\<exists>sb \<in> set (subjects plan). eq_primary ps (primary sb)
           \<and> fst (register_promises m pt plan ps cfg) = Inr (Some (Promise_init pt (Wrapped sb) cfg))"
      by (auto simp: r p)
  qed
  have c6: "\<forall>x. ps = Some (Plain x) \<and> x \<in> primary ` set (subjects plan) \<longrightarrow>
        (\<exists>p. fst (register_promises m pt plan ps cfg) = Inr (Some p)
           \<and> Promise_key p = (pt, x, cfg) \<and> subject p \<in> set (subjects plan))"
  proof (intro allI impI)
    fix x assume a: "ps = Some (Plain x) \<and> x \<in> primary ` set (subjects plan)"
    then have "ps \<noteq> None \<and> (\<exists>sb \<in> set (subjects plan). eq_primary ps (primary sb))" by auto
    with c5 obtain sb where sb: "sb \<in> set (subjects plan)" "eq_primary ps (primary sb)"
      "fst (register_promises m pt plan ps cfg) = Inr (Some (Promise_init pt (Wrapped sb) cfg))"
      by blast
    then show "\<exists>p. fst (register_promises m pt plan ps cfg) = Inr (Some p)
           \<and> Promise_key p = (pt, x, cfg) \<and> subject p \<in> set (subjects plan)"
      using a by (auto simp: Promise_key_def Promise_init_def as_subject_def)
  qed
  from c1 c2 c3 c4 c5 c6 show ?thesis by blast
qed

lemma subjects_plan_A: "subjects plan_A = [\<lparr>primary = 1, alternate = None\<rparr>, \<lparr>primary = 2, alternate = Some 7\<rparr>]"
  by (simp add: plan_A_def Plan_init_def pyset_def set_add_def as_subject_def)

theorem register_promises_spec_witness:
  "promised (snd (register_promises Map.empty ''Classes'' plan_A (Some (Plain 2)) None))
      (Promise_init ''Classes'' (Plain 1) None) = Some plan_A
   \<and> fst (register_promises Map.empty ''Classes'' plan_A (Some (Plain 2)) None)
       = Inr (Some (Promise_init ''Classes'' (Wrapped \<lparr>primary = 2, alternate = Some 7\<rparr>) None))
   \<and> fst (register_promises Map.empty ''Classes'' plan_A (Some (Plain 3)) None)
       = Inl InvalidRegistrationError
   \<and> fst (register_promises Map.empty ''Classes'' plan_A None None) = Inr None"
  using register_promises_spec [of plan_A Map.empty "''Classes''" "Some (Plain 2)" None]
    register_promises_spec [of plan_A Map.empty "''Classes''" "Some (Plain 3)" None]
    register_promises_spec [of plan_A Map.empty "''Classes''" None None]
  by (simp add: subjects_plan_A Promise_init_def as_subject_def)

lemma register_promises_snd:
  "snd (register_promises m pt plan ps cfg) =
     snd (register_loop pt plan ps cfg (subjects plan) (None, m))"
  by (cases "register_loop pt plan ps cfg (subjects plan) (None, m)")
     (simp add: register_promises_def)

lemma register_promises_fst:
  "fst (register_promises m pt plan ps cfg) =
     (if ps \<noteq> None \<and> fst (register_loop pt plan ps cfg (subjects plan) (None, m)) = None
      then Inl InvalidRegistrationError
      else Inr (fst (register_loop pt plan ps cfg (subjects plan) (None, m))))"
  by (cases "register_loop pt plan ps cfg (subjects plan) (None, m)")
     (simp add: register_promises_def)

lemma register_promises_lookup:
  "snd (register_promises m pt plan ps cfg) k =
     (if k \<in> (\<lambda>sb. Promise_key (Promise_init pt (Wrapped sb) cfg)) ` set (subjects plan)
      then Some plan else m k)"
  by (simp only: register_promises_snd register_loop_map)

lemma register_promises_result_indep:
  "fst (register_promises m pt plan ps cfg) = fst (register_promises m' pt plan ps cfg)"
  using register_loop_fst_indep [of pt plan ps cfg "subjects plan" None m m']
  by (simp only: register_promises_fst)

lemma register_promises_no_primary:
  "fst (register_promises m pt plan None cfg) = Inr None"
  by (simp add: register_promises_fst register_loop_none)

text \<open>
  C10. Registration is last-wins and never fails on collision. Whatever the mapper held
  before (here: after registering a first plan), registering a plan that covers a subject
  makes every promise equal to that subject's promise resolve to the newly registered
  plan; the result of \<^verbatim>\<open>register_promises\<close> (the exception or the promise returned) does not
  depend on the entries already present; without a primary subject it never raises. The
  re-registration at the end of \<^verbatim>\<open>execution_graph\<close> (no primary subject, no configuration)
  therefore succeeds and redirects the promises of the subjects of the replacement plan.
\<close>

theorem registration_last_wins:
  "(sb \<in> set (subjects plan2) \<and> Promise_eq q (Promise_init pt (Wrapped sb) cfg) \<longrightarrow>
      promised (snd (register_promises (snd (register_promises m pt plan1 ps1 cfg)) pt plan2 ps2 cfg)) q
        = Some plan2)
   \<and> fst (register_promises m pt plan2 ps2 cfg) = fst (register_promises Map.empty pt plan2 ps2 cfg)
   \<and> fst (register_promises m pt plan2 None cfg) = Inr None
   \<and> (sb \<in> set (subjects plan2) \<and> Promise_eq q (Promise_init pt (Wrapped sb) None) \<longrightarrow>
        reregister m pt [plan2] = (Inr (), snd (reregister m pt [plan2]))
        \<and> promised (snd (reregister m pt [plan2])) q = Some plan2)"
proof -
  have a: "sb \<in> set (subjects plan2) \<and> Promise_eq q (Promise_init pt (Wrapped sb) cfg) \<longrightarrow>
      promised (snd (register_promises (snd (register_promises m pt plan1 ps1 cfg)) pt plan2 ps2 cfg)) q
        = Some plan2"
    by (auto simp: promised_def Promise_eq_def register_promises_lookup)
  have b: "fst (register_promises m pt plan2 ps2 cfg) = fst (register_promises Map.empty pt plan2 ps2 cfg)"
    by (rule register_promises_result_indep)
  have c: "fst (register_promises m pt plan2 None cfg) = Inr None"
    by (rule register_promises_no_primary)
  have d: "sb \<in> set (subjects plan2) \<and> Promise_eq q (Promise_init pt (Wrapped sb) None) \<longrightarrow>
        reregister m pt [plan2] = (Inr (), snd (reregister m pt [plan2]))
        \<and> promised (snd (reregister m pt [plan2])) q = Some plan2"
  proof -
    obtain m' where m': "register_promises m pt plan2 None None = (Inr None, m')"
      using register_promises_no_primary [of m pt plan2 None]
      by (cases "register_promises m pt plan2 None None") auto
    have "m' k = (if k \<in> (\<lambda>sb. Promise_key (Promise_init pt (Wrapped sb) None)) ` set (subjects plan2)
      then Some plan2 else m k)" for k
      using register_promises_lookup [of m pt plan2 None None k] by (simp add: m')
    then show ?thesis
      by (auto simp: m' promised_def Promise_eq_def)
  qed
  from a b c d show ?thesis by blast
qed

lemma subjects_plan_B: "subjects plan_B = [\<lparr>primary = 2, alternate = None\<rparr>, \<lparr>primary = 3, alternate = None\<rparr>]"
  by (simp add: plan_B_def Plan_init_def pyset_def set_add_def as_subject_def)

theorem registration_last_wins_witness:
  "promised (snd (register_promises (snd (register_promises Map.empty ''Classes'' plan_A (Some (Plain 1)) None))
       ''Classes'' plan_B None None)) (Promise_init ''Classes'' (Wrapped \<lparr>primary = 2, alternate = Some 7\<rparr>) None)
     = Some plan_B
   \<and> promised (snd (reregister Map.empty ''Classes'' [plan_B]))
       (Promise_init ''Classes'' (Wrapped \<lparr>primary = 2, alternate = Some 7\<rparr>) None) = Some plan_B"
  using registration_last_wins [of "\<lparr>primary = 2, alternate = None\<rparr>" plan_B
      "Promise_init ''Classes'' (Wrapped \<lparr>primary = 2, alternate = Some 7\<rparr>) None"
      "''Classes''" None Map.empty plan_A "Some (Plain 1)" None]
  by (simp add: subjects_plan_B Promise_eq_def Promise_key_def Promise_init_def as_subject_def)

text \<open>
  C9. Strings are leaves of the input tree. \<^verbatim>\<open>iter_promises\<close> yields nothing for a string,
  so a string anywhere in a sequence, in a mapping or at the top of the inputs contributes
  no promise; \<^verbatim>\<open>bind_products\<close> returns a string unchanged. Lists, tuples and mappings are
  traversed element by element, and a promise yields itself.
\<close>

theorem strings_are_leaves:
  "iter_promises (PStr s) = []
   \<and> bind_products products_by_promise (PStr s) = Inr (PStr s)
   \<and> iter_promises (PList (xs @ PStr s # ys)) = iter_promises (PList (xs @ ys))
   \<and> iter_promises (PDict (kvs @ (k, PStr s) # kvs')) = iter_promises (PDict (kvs @ kvs'))
   \<and> promises (plan\<lparr>inputs := ins @ (k, PStr s) # ins'\<rparr>) = promises (plan\<lparr>inputs := ins @ ins'\<rparr>)
   \<and> bind (plan\<lparr>inputs := [(k, PStr s)]\<rparr>) products_by_promise = Inr [(k, PStr s)]
   \<and> bind_products products_by_promise (PList [PStr s]) = Inr (PList [PStr s])
   \<and> iter_promises (PList xs) = concat (map iter_promises xs)
   \<and> iter_promises (PTuple xs) = concat (map iter_promises xs)
   \<and> iter_promises (PDict kvs) = concat (map (\<lambda>kv. iter_promises (snd kv)) kvs)
   \<and> iter_promises (PPromise p) = [p]"
  by (simp add: iter_promises.simps [of "PStr s"] iter_promises.simps [of "PList xs" for xs]
      iter_promises.simps [of "PTuple xs" for xs] iter_promises.simps [of "PDict xs" for xs]
      iter_promises.simps [of "PPromise p"]
      bind_products.simps [of _ "PStr s"] bind_products.simps [of _ "PList xs" for xs]
      is_iterable_def promises_def bind_def)

section \<open>Properties of the requirement solver\<close>

lemma cyclic_planners_tables:
  "product_requirements cyclic_planners ''A'' = [(''P'', [[''B'']])]"
  "product_requirements cyclic_planners ''B'' = [(''Q'', [[''A'']])]"
  "output_products cyclic_planners = {''A'', ''B''}"
  by (auto simp: cyclic_planners_def Planners_init_def add_planner_def add_product_type_def)

lemma cyclic_planners_diverge:
  "apply_product_requirements fuel cyclic_planners [] ''A'' st = None
   \<and> apply_product_requirements fuel cyclic_planners [] ''B'' st = None"
  by (induction fuel arbitrary: st) (simp_all add: cyclic_planners_tables)

lemma apply_each_mono:
  "(\<And>x st r. rec x st = Some r \<Longrightarrow> rec' x st = Some r) \<Longrightarrow>
   apply_each rec reqs st = Some r \<Longrightarrow> apply_each rec' reqs st = Some r"
proof (induction reqs arbitrary: st r)
  case Nil then show ?case by simp
next
  case (Cons q reqs)
  from Cons.prems(2) obtain b st1 where 1: "rec q st = Some (b, st1)"
    by (auto split: option.splits)
  with Cons.prems(2) obtain bs st2 where 2: "apply_each rec reqs st1 = Some (bs, st2)"
    by (auto split: option.splits)
  from Cons.prems(1) [OF 1] Cons.IH [OF Cons.prems(1) 2] Cons.prems(2) 1 2
  show ?case by simp
qed

lemma apply_product_requirement_clauses_mono:
  "(\<And>x st r. rec x st = Some r \<Longrightarrow> rec' x st = Some r) \<Longrightarrow>
   apply_product_requirement_clauses rec planner clauses st = Some r \<Longrightarrow>
   apply_product_requirement_clauses rec' planner clauses st = Some r"
proof (induction clauses arbitrary: st r)
  case Nil then show ?case by simp
next
  case (Cons c clauses)
  from Cons.prems(2) obtain matched fc pcc where 1: "apply_each rec c st = Some (matched, (fc, pcc))"
    by (auto split: option.splits)
  have 2: "apply_each rec' c st = Some (matched, (fc, pcc))"
    by (rule apply_each_mono [OF Cons.prems(1) 1])
  show ?case using Cons.prems(2) Cons.IH [OF Cons.prems(1)]
    by (auto simp: 1 2 Let_def split: if_splits)
qed

lemma apply_planners_mono:
  "(\<And>x st r. rec x st = Some r \<Longrightarrow> rec' x st = Some r) \<Longrightarrow>
   apply_planners rec entries matched st = Some r \<Longrightarrow>
   apply_planners rec' entries matched st = Some r"
proof (induction entries arbitrary: matched st r)
  case Nil then show ?case by simp
next
  case (Cons e entries)
  from Cons.prems(2) obtain m st1 where
    1: "apply_product_requirement_clauses rec (fst e) (snd e) st = Some (m, st1)"
    by (auto split: option.splits)
  have 2: "apply_product_requirement_clauses rec' (fst e) (snd e) st = Some (m, st1)"
    by (rule apply_product_requirement_clauses_mono [OF Cons.prems(1) 1])
  show ?case using Cons.prems(2) Cons.IH [OF Cons.prems(1)] by (simp add: 1 2)
qed

lemma apply_product_requirements_Suc:
  "apply_product_requirements fuel reg ins out st = Some r \<Longrightarrow>
   apply_product_requirements (Suc fuel) reg ins out st = Some r"
proof (induction fuel arbitrary: out st r)
  case 0 then show ?case by (simp split: if_splits)
next
  case (Suc fuel)
  show ?case
  proof (cases "out \<in> set ins \<or> out \<notin> output_products reg")
    case True with Suc.prems show ?thesis by auto
  next
    case False
    with Suc.prems have "apply_planners (apply_product_requirements fuel reg ins)
        (product_requirements reg out) False st = Some r" by simp
    then have "apply_planners (apply_product_requirements (Suc fuel) reg ins)
        (product_requirements reg out) False st = Some r"
      by (rule apply_planners_mono [rotated]) (rule Suc.IH)
    with False show ?thesis by simp
  qed
qed

lemma apply_product_requirements_add:
  "apply_product_requirements fuel reg ins out st = Some r \<Longrightarrow>
   apply_product_requirements (fuel + k) reg ins out st = Some r"
proof (induction k)
  case 0 then show ?case by simp
next
  case (Suc k)
  from apply_product_requirements_Suc [OF Suc.IH [OF Suc.prems]] show ?case
    by (simp only: add_Suc_right)
qed

lemma apply_product_requirements_mono:
  "fuel \<le> fuel' \<Longrightarrow> apply_product_requirements fuel reg ins out st = Some r \<Longrightarrow>
   apply_product_requirements fuel' reg ins out st = Some r"
  using apply_product_requirements_add [of fuel reg ins out st r "fuel' - fuel"]
  by (simp del: apply_product_requirements.simps)

lemma apply_each_total:
  "(\<And>req st. req \<in> set reqs \<Longrightarrow> rec req st \<noteq> None) \<Longrightarrow> apply_each rec reqs st \<noteq> None"
proof (induction reqs arbitrary: st)
  case Nil then show ?case by simp
next
  case (Cons q reqs)
  from Cons.prems [of q st] obtain b st1 where 1: "rec q st = Some (b, st1)" by auto
  from Cons.IH [of st1] Cons.prems obtain r where 2: "apply_each rec reqs st1 = Some r" by auto
  show ?case by (cases r) (simp add: 1 2)
qed

lemma apply_product_requirement_clauses_total:
  "(\<And>clause req st. clause \<in> set clauses \<Longrightarrow> req \<in> set clause \<Longrightarrow> rec req st \<noteq> None) \<Longrightarrow>
   apply_product_requirement_clauses rec planner clauses st \<noteq> None"
proof (induction clauses arbitrary: st)
  case Nil then show ?case by simp
next
  case (Cons c clauses)
  have "apply_each rec c st \<noteq> None"
    by (rule apply_each_total) (rule Cons.prems, simp_all)
  then obtain matched fc pcc where 1: "apply_each rec c st = Some (matched, (fc, pcc))"
    by (cases "apply_each rec c st") auto
  have 2: "apply_product_requirement_clauses rec planner clauses st' \<noteq> None" for st'
    by (rule Cons.IH) (rule Cons.prems, simp_all)
  show ?case using 2 by (auto simp: 1 Let_def)
qed

lemma apply_planners_total:
  "(\<And>entry clause req st. entry \<in> set entries \<Longrightarrow> clause \<in> set (snd entry) \<Longrightarrow>
       req \<in> set clause \<Longrightarrow> rec req st \<noteq> None) \<Longrightarrow>
   apply_planners rec entries matched st \<noteq> None"
proof (induction entries arbitrary: matched st)
  case Nil then show ?case by simp
next
  case (Cons e entries)
  have "apply_product_requirement_clauses rec (fst e) (snd e) st \<noteq> None"
    by (rule apply_product_requirement_clauses_total) (rule Cons.prems [of e], simp_all)
  then obtain m st1 where 1: "apply_product_requirement_clauses rec (fst e) (snd e) st = Some (m, st1)"
    by (cases "apply_product_requirement_clauses rec (fst e) (snd e) st") auto
  have 2: "apply_planners rec entries matched' st' \<noteq> None" for matched' st'
    by (rule Cons.IH) (rule Cons.prems, simp_all)
  show ?case using 2 by (simp add: 1)
qed

lemma finite_uniform_bound:
  "finite R \<Longrightarrow> (\<And>r. r \<in> R \<Longrightarrow> \<exists>n. \<forall>m\<ge>n. P r m) \<Longrightarrow> \<exists>N::nat. \<forall>r\<in>R. \<forall>m\<ge>N. P r m"
proof (induction R rule: finite_induct)
  case empty then show ?case by simp
next
  case (insert x F)
  from insert.IH insert.prems obtain N where N: "\<forall>r\<in>F. \<forall>m\<ge>N. P r m" by auto
  from insert.prems [of x] obtain n where n: "\<forall>m\<ge>n. P x m" by auto
  have "\<forall>r\<in>insert x F. \<forall>m\<ge>max N n. P r m" using N n by auto
  then show ?case ..
qed

lemma finite_requirements:
  "finite {req. (req, out) \<in> requirement_edges reg ins}"
proof -
  have "{req. (req, out) \<in> requirement_edges reg ins}
        \<subseteq> (\<Union>entry \<in> set (product_requirements reg out). \<Union>clause \<in> set (snd entry). set clause)"
    by (auto simp: requirement_edges_def)
  moreover have "finite (\<Union>entry \<in> set (product_requirements reg out). \<Union>clause \<in> set (snd entry). set clause)"
    by simp
  ultimately show ?thesis by (rule finite_subset)
qed

lemma apply_product_requirements_returns:
  assumes "wf (requirement_edges reg input_products)"
  shows "\<exists>fuel. \<forall>fuel'\<ge>fuel. \<forall>st. \<exists>ok st'.
           apply_product_requirements fuel' reg input_products out st = Some (ok, st')"
  using assms
proof (induction out rule: wf_induct_rule)
  case (less out)
  show ?case
  proof (cases "out \<in> set input_products \<or> out \<notin> output_products reg")
    case True
    have "\<forall>fuel'\<ge>0. \<forall>st. \<exists>ok st'.
        apply_product_requirements fuel' reg input_products out st = Some (ok, st')"
    proof (intro allI impI)
      fix fuel' :: nat and st :: "('b, 'a) acc"
      show "\<exists>ok st'. apply_product_requirements fuel' reg input_products out st = Some (ok, st')"
        using True by (cases fuel') auto
    qed
    then show ?thesis ..
  next
    case False
    let ?R = "{req. (req, out) \<in> requirement_edges reg input_products}"
    have "\<exists>N. \<forall>r\<in>?R. \<forall>m\<ge>N. \<forall>st. \<exists>ok st'.
        apply_product_requirements m reg input_products r st = Some (ok, st')"
      by (rule finite_uniform_bound [OF finite_requirements]) (use less.IH in simp)
    then obtain N where N: "\<And>r m st. r \<in> ?R \<Longrightarrow> N \<le> m \<Longrightarrow>
        apply_product_requirements m reg input_products r st \<noteq> None"
      by fastforce
    have "\<forall>fuel'\<ge>Suc N. \<forall>st. \<exists>ok st'.
        apply_product_requirements fuel' reg input_products out st = Some (ok, st')"
    proof (intro allI impI)
      fix fuel' :: nat and st :: "('b, 'a) acc"
      assume "Suc N \<le> fuel'"
      then obtain m where m: "fuel' = Suc m" "N \<le> m" by (cases fuel') auto
      have "apply_planners (apply_product_requirements m reg input_products)
              (product_requirements reg out) False st \<noteq> None"
      proof (rule apply_planners_total)
        fix entry clause req st0
        assume "entry \<in> set (product_requirements reg out)" "clause \<in> set (snd entry)"
          "req \<in> set clause"
        with False have "req \<in> ?R" by (auto simp: requirement_edges_def)
        from N [OF this m(2)]
        show "apply_product_requirements m reg input_products req st0 \<noteq> None" .
      qed
      with False m show "\<exists>ok st'.
          apply_product_requirements fuel' reg input_products out st = Some (ok, st')"
        by auto
    qed
    then show ?thesis ..
  qed
qed

text \<open>
  C2 (as stated, refuted). The claim says the solver returns on every registry, mutually
  referential ones included. With planner \<open>P\<close> producing \<open>A\<close> from \<open>B\<close> and planner \<open>Q\<close>
  producing \<open>B\<close> from \<open>A\<close>, and no native product, the check of \<open>A\<close> recurses into the check
  of \<open>B\<close> and back without end: no depth of recursion gives a result.
\<close>

theorem solver_cycle_counterexample:
  "\<forall>fuel st. apply_product_requirements fuel cyclic_planners [] ''A'' st = None"
  by (simp add: cyclic_planners_diverge)

text \<open>
  C2 (amended). When the requirement graph of the registry over the non-native product
  types is well-founded (no product type requires itself through a chain of clauses), the
  solver returns: some depth of recursion suffices, from any accumulators, and any
  greater depth gives a result too.
\<close>

theorem solver_returns_on_acyclic_requirements:
  assumes "wf (requirement_edges reg input_products)"
  shows "\<exists>fuel. \<forall>fuel'\<ge>fuel. \<forall>st. \<exists>ok st'.
           apply_product_requirements fuel' reg input_products out st = Some (ok, st')"
  using assms by (rule apply_product_requirements_returns)

lemma example_planners_tables:
  "product_requirements example_planners t =
     (if t = ''Sources'' then [(''ThriftGen'', [[''Thrift'']])]
      else if t = ''Classes'' then [(''Javac'', [[''Sources'', ''Deps''], [''Precompiled'']])]
      else [])"
  "output_products example_planners = {''Sources'', ''Classes''}"
  by (auto simp: example_planners_def Planners_init_def add_planner_def add_product_type_def)

lemma example_planners_wf: "wf (requirement_edges example_planners ins)"
proof (rule wf_subset)
  show "wf (measure (\<lambda>t. if t = ''Classes'' then 2 else if t = ''Sources'' then 1 else (0::nat)))"
    by simp
  show "requirement_edges example_planners ins
        \<subseteq> measure (\<lambda>t. if t = ''Classes'' then 2 else if t = ''Sources'' then 1 else (0::nat))"
    by (auto simp: requirement_edges_def example_planners_tables split: if_splits)
qed

theorem solver_returns_on_acyclic_requirements_witness:
  "wf (requirement_edges example_planners [''Thrift''])
   \<and> (\<exists>fuel. \<forall>st. \<exists>ok st'.
         apply_product_requirements fuel example_planners [''Thrift''] ''Classes'' st = Some (ok, st'))"
  using solver_returns_on_acyclic_requirements [OF example_planners_wf, of "[''Thrift'']" "''Classes''"]
    example_planners_wf [of "[''Thrift'']"]
  by blast

lemma apply_each_length:
  "apply_each rec reqs st = Some (matched, st1) \<Longrightarrow> length matched = length reqs"
  by (induction reqs arbitrary: st matched st1) (auto split: option.splits)

lemma all_matched_iff:
  "length (filter (\<lambda>match. match) matched) = length matched \<longleftrightarrow> (\<forall>b \<in> set matched. b)"
proof (induction matched)
  case Nil then show ?case by simp
next
  case (Cons a matched)
  have "length (filter (\<lambda>match. match) matched) \<le> length matched"
    by (rule length_filter_le)
  then have ne: "length (filter (\<lambda>match. match) matched) \<noteq> Suc (length matched)"
    by linarith
  show ?case
  proof (cases a)
    case True with Cons show ?thesis by simp
  next
    case False with ne show ?thesis by simp
  qed
qed

lemma list_all2_imp_all:
  "list_all2 (\<longrightarrow>) xs ys \<Longrightarrow> \<forall>b \<in> set xs. b \<Longrightarrow> \<forall>b \<in> set ys. b"
  by (induction rule: list_all2_induct) auto

lemma no_less_producibleD:
  "no_less_producible rec rec' \<Longrightarrow> rec x st = Some (b, st1) \<Longrightarrow>
   \<exists>b' st1'. rec' x st' = Some (b', st1') \<and> (b \<longrightarrow> b')"
  unfolding no_less_producible_def by blast

lemma apply_each_rel:
  assumes H: "no_less_producible rec rec'"
  shows "apply_each rec reqs st = Some (bs, st1) \<Longrightarrow>
         \<exists>bs' st1'. apply_each rec' reqs st' = Some (bs', st1') \<and> list_all2 (\<longrightarrow>) bs bs'"
proof (induction reqs arbitrary: st bs st1 st')
  case Nil then show ?case by simp
next
  case (Cons q reqs)
  from Cons.prems obtain b sa where 1: "rec q st = Some (b, sa)"
    by (auto split: option.splits)
  with Cons.prems obtain cs sb where 2: "apply_each rec reqs sa = Some (cs, sb)"
    and bs: "bs = b # cs"
    by (auto split: option.splits)
  from no_less_producibleD [OF H 1, where ?st' = st'] obtain b' sa' where 3: "rec' q st' = Some (b', sa')" and bb: "b \<longrightarrow> b'"
    by blast
  from Cons.IH [OF 2, where ?st' = sa'] obtain cs' sb' where
    4: "apply_each rec' reqs sa' = Some (cs', sb')" and cc: "list_all2 (\<longrightarrow>) cs cs'"
    by blast
  show ?case using bb cc by (simp add: 3 4 bs)
qed

lemma apply_product_requirement_clauses_rel:
  assumes H: "no_less_producible rec rec'"
  shows "apply_product_requirement_clauses rec planner clauses st = Some (b, st1) \<Longrightarrow>
         \<exists>b' st1'. apply_product_requirement_clauses rec' planner clauses st' = Some (b', st1')
                    \<and> (b \<longrightarrow> b')"
proof (induction clauses arbitrary: st b st1 st')
  case Nil then show ?case by auto
next
  case (Cons c clauses)
  from Cons.prems obtain matched fc pcc where 1: "apply_each rec c st = Some (matched, (fc, pcc))"
    by (auto split: option.splits)
  from apply_each_rel [OF H 1, where ?st' = st'] obtain matched' fc' pcc' where
    2: "apply_each rec' c st' = Some (matched', (fc', pcc'))" and rel: "list_all2 (\<longrightarrow>) matched matched'"
    by auto
  have l: "length matched = length c" "length matched' = length c"
    using apply_each_length [OF 1] apply_each_length [OF 2] by auto
  show ?case
  proof (cases "\<forall>b \<in> set matched'. b")
    case True
    then have "length (filter (\<lambda>match. match) matched') = length c"
      using all_matched_iff [of matched'] l by simp
    then show ?thesis by (auto simp: 2)
  next
    case False
    then have n': "length (filter (\<lambda>match. match) matched') \<noteq> length c"
      using all_matched_iff [of matched'] l by simp
    from False list_all2_imp_all [OF rel] have "\<not> (\<forall>b \<in> set matched. b)"
      by blast
    then have n: "length (filter (\<lambda>match. match) matched) \<noteq> length c"
      using all_matched_iff [of matched] l by simp
    from Cons.prems n obtain sa where
      3: "apply_product_requirement_clauses rec planner clauses sa = Some (b, st1)"
      by (auto simp: 1 Let_def split: if_splits)
    have "\<exists>sa'. apply_product_requirement_clauses rec' planner (c # clauses) st'
             = apply_product_requirement_clauses rec' planner clauses sa'"
      using n' by (auto simp: 2 Let_def)
    then obtain sa' where 4: "apply_product_requirement_clauses rec' planner (c # clauses) st'
             = apply_product_requirement_clauses rec' planner clauses sa'" ..
    from Cons.IH [OF 3, where ?st' = sa'] show ?thesis unfolding 4 .
  qed
qed

lemma apply_planners_rel:
  assumes H: "no_less_producible rec rec'"
  shows "apply_planners rec entries m st = Some (b, st1) \<Longrightarrow> (m \<longrightarrow> m') \<Longrightarrow>
         \<exists>b' st1'. apply_planners rec' entries m' st' = Some (b', st1') \<and> (b \<longrightarrow> b')"
proof (induction entries arbitrary: m m' st b st1 st')
  case Nil then show ?case by simp
next
  case (Cons e entries)
  from Cons.prems(1) obtain k sa where
    1: "apply_product_requirement_clauses rec (fst e) (snd e) st = Some (k, sa)"
    by (auto split: option.splits)
  with Cons.prems(1) have 2: "apply_planners rec entries (m \<or> k) sa = Some (b, st1)" by simp
  from apply_product_requirement_clauses_rel [OF H 1, where ?st' = st'] obtain k' sa' where
    3: "apply_product_requirement_clauses rec' (fst e) (snd e) st' = Some (k', sa')" and kk: "k \<longrightarrow> k'"
    by blast
  have "(m \<or> k) \<longrightarrow> (m' \<or> k')" using Cons.prems(2) kk by blast
  from Cons.IH [OF 2 this, where ?st' = sa'] show ?case by (simp add: 3)
qed

lemma apply_product_requirements_rel:
  assumes sub: "set ins \<subseteq> set ins'"
  shows "apply_product_requirements fuel reg ins out st = Some (b, st1) \<Longrightarrow>
         \<exists>b' st1'. apply_product_requirements fuel reg ins' out st' = Some (b', st1') \<and> (b \<longrightarrow> b')"
proof (induction fuel arbitrary: out st b st1 st')
  case 0
  then show ?case using sub by (auto split: if_splits)
next
  case (Suc fuel)
  show ?case
  proof (cases "out \<in> set ins' \<or> out \<notin> output_products reg")
    case True
    with Suc.prems sub show ?thesis by (auto split: if_splits)
  next
    case False
    with sub have nin: "out \<notin> set ins" by auto
    from Suc.prems False nin have
      1: "apply_planners (apply_product_requirements fuel reg ins)
            (product_requirements reg out) False st = Some (b, st1)" by simp
    have "\<exists>b' st1'. apply_planners (apply_product_requirements fuel reg ins')
            (product_requirements reg out) False st' = Some (b', st1') \<and> (b \<longrightarrow> b')"
    proof (rule apply_planners_rel [OF _ 1])
      show "no_less_producible (apply_product_requirements fuel reg ins)
              (apply_product_requirements fuel reg ins')"
        unfolding no_less_producible_def using Suc.IH by blast
    qed simp
    with False show ?thesis by simp
  qed
qed

lemma apply_product_requirements_judged:
  assumes run: "apply_product_requirements fuel reg ins out st = Some (b, st1)"
  shows "judged fuel reg ins out = Some b"
proof -
  from apply_product_requirements_rel [OF subset_refl run, where ?st' = "({}, Map.empty)"]
  obtain b' s' where 1: "apply_product_requirements fuel reg ins out ({}, Map.empty) = Some (b', s')"
    and bb: "b \<longrightarrow> b'" by blast
  from apply_product_requirements_rel [OF subset_refl 1, where ?st' = st] run
  have "b' \<longrightarrow> b" by auto
  with bb have "b' = b" by blast
  with 1 show ?thesis by (simp add: judged_def)
qed

lemma judged_run:
  "judged fuel reg ins out = Some b \<Longrightarrow>
   \<exists>st1. apply_product_requirements fuel reg ins out st = Some (b, st1)"
proof -
  assume "judged fuel reg ins out = Some b"
  then obtain s where 1: "apply_product_requirements fuel reg ins out ({}, Map.empty) = Some (b, s)"
    by (auto simp: judged_def)
  from apply_product_requirements_rel [OF subset_refl 1, where ?st' = st]
  obtain b' s' where 2: "apply_product_requirements fuel reg ins out st = Some (b', s')" by blast
  from apply_product_requirements_judged [OF 2] 1 have "b' = b" by (simp add: judged_def)
  with 2 show ?thesis by simp
qed

lemma judged_monotone:
  "set ins \<subseteq> set ins' \<Longrightarrow> judged fuel reg ins out = Some True \<Longrightarrow>
   judged fuel reg ins' out = Some True"
proof -
  assume sub: "set ins \<subseteq> set ins'" and "judged fuel reg ins out = Some True"
  then obtain s where 1: "apply_product_requirements fuel reg ins out ({}, Map.empty) = Some (True, s)"
    by (auto simp: judged_def)
  from apply_product_requirements_rel [OF sub 1, where ?st' = "({}, Map.empty)"]
  show ?thesis by (auto simp: judged_def)
qed

lemma solve_outputs_result:
  "solve_outputs fuel reg ins outs (found, st) = Some (found1, st1) \<Longrightarrow>
   found1 = found @ filter (\<lambda>out. judged fuel reg ins out = Some True) outs"
proof (induction outs arbitrary: found st)
  case Nil then show ?case by simp
next
  case (Cons out outs)
  from Cons.prems obtain ok sa where 1: "apply_product_requirements fuel reg ins out st = Some (ok, sa)"
    by (auto split: option.splits)
  from apply_product_requirements_judged [OF 1] have j: "judged fuel reg ins out = Some ok" .
  from Cons.prems 1 have "solve_outputs fuel reg ins outs
      (if ok then found @ [out] else found, sa) = Some (found1, st1)" by simp
  from Cons.IH [OF this] j show ?case by (cases ok) simp_all
qed

lemma solve_outputs_rel:
  assumes sub: "set ins \<subseteq> set ins'"
  shows "solve_outputs fuel reg ins outs (found, st) = Some r \<Longrightarrow>
         \<exists>r'. solve_outputs fuel reg ins' outs (found', st') = Some r'"
proof (induction outs arbitrary: found st found' st' r)
  case Nil then show ?case by simp
next
  case (Cons out outs)
  from Cons.prems obtain ok sa where 1: "apply_product_requirements fuel reg ins out st = Some (ok, sa)"
    by (auto split: option.splits)
  from apply_product_requirements_rel [OF sub 1, where ?st' = st']
  obtain ok' sa' where 2: "apply_product_requirements fuel reg ins' out st' = Some (ok', sa')"
    by blast
  from Cons.prems 1 have 3: "solve_outputs fuel reg ins outs
      (if ok then found @ [out] else found, sa) = Some r" by simp
  from Cons.IH [OF 3, where ?found' = "if ok' then found' @ [out] else found'" and ?st' = sa']
  show ?case by (simp add: 2)
qed

lemma example_classes_from_precompiled:
  "apply_product_requirements 2 example_planners [''Precompiled''] ''Classes'' ({}, Map.empty)
     = Some (True, ({''Precompiled''}, Map.empty))"
  by (simp add: numeral_2_eq_2 example_planners_tables)

lemma example_produced_precompiled:
  "produced_types_for_subject 2 (\<lambda>s. [''Precompiled'']) example_planners (Plain (1::nat))
     [''Sources'', ''Classes''] = Some (Inr [''Classes''])"
  by (simp add: produced_types_for_subject_def numeral_2_eq_2 example_planners_tables)

lemma example_produced_partial:
  "produced_types_for_subject 2 (\<lambda>s. [''Precompiled'', ''Thrift'']) example_planners (Plain (1::nat))
     [''Classes''] =
   Some (Inl (PartiallyConsumedInputsError ''Classes'' (Plain 1)
           [''Sources'' \<mapsto> [''Javac'' \<mapsto> {''Deps''}]]))"
  by (simp add: produced_types_for_subject_def numeral_2_eq_2 example_planners_tables
      pyset_def set_add_def record_partial_def Let_def)

text \<open>
  C7. Producibility is monotone in the native products. If the solver judges an output
  product type producible from the native products \<open>ins\<close>, then from any superset \<open>ins'\<close>
  it returns too (with the same depth of recursion, from any accumulators) and judges it
  producible. For \<^verbatim>\<open>produced_types_for_subject\<close>: if the call returns a list for a subject,
  then for a subject with a superset of its native products the call returns as well (a
  list or a \<^verbatim>\<open>PartiallyConsumedInputsError\<close>), and a list it returns holds every output
  type of the first list.
\<close>

theorem producibility_monotone_in_native_products:
  "(set ins \<subseteq> set ins' \<and> apply_product_requirements fuel reg ins out st = Some (True, st_after)
      \<longrightarrow> (\<exists>st1'. apply_product_requirements fuel reg ins' out st' = Some (True, st1')))
   \<and> (set (for_subject subj) \<subseteq> set (for_subject' subj')
        \<and> produced_types_for_subject fuel for_subject reg subj outs = Some (Inr ys)
      \<longrightarrow> (\<exists>r. produced_types_for_subject fuel for_subject' reg subj' outs = Some r
             \<and> (\<forall>ys'. r = Inr ys' \<longrightarrow> set ys \<subseteq> set ys')))"
proof (intro conjI impI)
  assume a: "set ins \<subseteq> set ins' \<and> apply_product_requirements fuel reg ins out st = Some (True, st_after)"
  then have sub: "set ins \<subseteq> set ins'"
    and run: "apply_product_requirements fuel reg ins out st = Some (True, st_after)" by auto
  from apply_product_requirements_rel [OF sub run, where ?st' = st']
  show "\<exists>st1'. apply_product_requirements fuel reg ins' out st' = Some (True, st1')" by auto
next
  assume a: "set (for_subject subj) \<subseteq> set (for_subject' subj')
        \<and> produced_types_for_subject fuel for_subject reg subj outs = Some (Inr ys)"
  then have sub: "set (for_subject subj) \<subseteq> set (for_subject' subj')"
    and run: "produced_types_for_subject fuel for_subject reg subj outs = Some (Inr ys)" by auto
  from run obtain fc pcc where
    1: "solve_outputs fuel reg (for_subject subj) outs ([], ({}, Map.empty)) = Some (ys, (fc, pcc))"
    by (auto simp: produced_types_for_subject_def Let_def split: option.splits if_splits)
  from solve_outputs_rel [OF sub 1, where ?found' = "[]" and ?st' = "({}, Map.empty)"]
  obtain ys' fc' pcc' where
    2: "solve_outputs fuel reg (for_subject' subj') outs ([], ({}, Map.empty)) = Some (ys', (fc', pcc'))"
    by (metis surj_pair)
  have ys: "ys = filter (\<lambda>out. judged fuel reg (for_subject subj) out = Some True) outs"
    using solve_outputs_result [OF 1] by simp
  have ys': "ys' = filter (\<lambda>out. judged fuel reg (for_subject' subj') out = Some True) outs"
    using solve_outputs_result [OF 2] by simp
  have "set ys \<subseteq> set ys'"
    unfolding ys ys' using judged_monotone [OF sub] by auto
  then show "\<exists>r. produced_types_for_subject fuel for_subject' reg subj' outs = Some r
             \<and> (\<forall>ys'. r = Inr ys' \<longrightarrow> set ys \<subseteq> set ys')"
    by (auto simp: produced_types_for_subject_def 2 Let_def)
qed

theorem producibility_monotone_in_native_products_witness:
  "set [''Precompiled''] \<subseteq> set [''Precompiled'', ''Thrift'']
   \<and> apply_product_requirements 2 example_planners [''Precompiled''] ''Classes'' ({}, Map.empty)
       = Some (True, ({''Precompiled''}, Map.empty))
   \<and> (\<exists>st1'. apply_product_requirements 2 example_planners [''Precompiled'', ''Thrift'']
                 ''Classes'' ({}, Map.empty) = Some (True, st1'))
   \<and> produced_types_for_subject 2 (\<lambda>s. [''Precompiled'']) example_planners (Plain (1::nat))
        [''Sources'', ''Classes''] = Some (Inr [''Classes''])
   \<and> (\<exists>r. produced_types_for_subject 2 (\<lambda>s. [''Precompiled'', ''Thrift'']) example_planners
              (Plain (1::nat)) [''Sources'', ''Classes''] = Some r)"
  using producibility_monotone_in_native_products
    [where ins = "[''Precompiled'']" and ins' = "[''Precompiled'', ''Thrift'']"
       and fuel = 2 and reg = example_planners and out = "''Classes''"
       and st = "({}, Map.empty)" and st_after = "({''Precompiled''}, Map.empty)"
       and st' = "({}, Map.empty)"
       and for_subject = "\<lambda>s. [''Precompiled'']" and subj = "Plain (1::nat)"
       and for_subject' = "\<lambda>s. [''Precompiled'', ''Thrift'']" and subj' = "Plain (1::nat)"
       and outs = "[''Sources'', ''Classes'']" and ys = "[''Classes'']"]
    example_classes_from_precompiled example_produced_precompiled
  by auto

lemma set_foldl_set_add: "set (foldl (set_add key) acc xs) \<subseteq> set acc \<union> set xs"
proof (induction xs arbitrary: acc)
  case Nil then show ?case by simp
next
  case (Cons a xs)
  have "set (set_add key acc a) \<subseteq> insert a (set acc)" by (auto simp: set_add_def)
  with Cons.IH [of "set_add key acc a"] show ?case by auto
qed

lemma set_pyset_subset: "set (pyset key xs) \<subseteq> set xs"
  using set_foldl_set_add [of key "[]" xs] by (simp add: pyset_def)

lemma record_partial_sound:
  assumes "partials_sound J reg pcc" "J c = Some True" "U \<noteq> {}"
    and "\<forall>u \<in> U. J u = Some False \<and>
           (\<exists>out clauses clause. (planner, clauses) \<in> set (product_requirements reg out)
              \<and> clause \<in> set clauses \<and> c \<in> set clause \<and> u \<in> set clause)"
  shows "partials_sound J reg (record_partial planner U pcc c)"
  using assms unfolding partials_sound_def record_partial_def Let_def
  by (auto split: option.splits if_splits)

lemma foldl_record_partial_sound:
  assumes "U \<noteq> {}"
    and "\<forall>c \<in> set cs. J c = Some True \<and> (\<forall>u \<in> U. J u = Some False \<and>
           (\<exists>out clauses clause. (planner, clauses) \<in> set (product_requirements reg out)
              \<and> clause \<in> set clauses \<and> c \<in> set clause \<and> u \<in> set clause))"
  shows "partials_sound J reg pcc \<Longrightarrow> partials_sound J reg (foldl (record_partial planner U) pcc cs)"
  using assms(2)
proof (induction cs arbitrary: pcc)
  case Nil then show ?case by simp
next
  case (Cons c cs)
  have "partials_sound J reg (record_partial planner U pcc c)"
    by (rule record_partial_sound [OF Cons.prems(1)]) (use Cons.prems(2) assms(1) in auto)
  from Cons.IH [OF this] Cons.prems(2) show ?case by simp
qed

lemma apply_each_sound:
  assumes H: "rec_sound J reg rec"
  shows "apply_each rec reqs st = Some (bs, st') \<Longrightarrow>
         map J reqs = map Some bs
         \<and> (partials_sound J reg (snd st) \<longrightarrow> partials_sound J reg (snd st'))"
proof (induction reqs arbitrary: st bs st')
  case Nil then show ?case by simp
next
  case (Cons q reqs)
  from Cons.prems obtain b sa where 1: "rec q st = Some (b, sa)"
    by (auto split: option.splits)
  with Cons.prems obtain cs where 2: "apply_each rec reqs sa = Some (cs, st')" and bs: "bs = b # cs"
    by (auto split: option.splits)
  from H 1 have 3: "J q = Some b"
    "partials_sound J reg (snd st) \<longrightarrow> partials_sound J reg (snd sa)"
    unfolding rec_sound_def by blast+
  from Cons.IH [OF 2] 3 show ?case by (simp add: bs)
qed

lemma zip_judged:
  "map J reqs = map Some bs \<Longrightarrow> (r, b) \<in> set (zip reqs bs) \<Longrightarrow> J r = Some b"
  by (induction reqs bs rule: list_induct2') auto

lemma some_unmatched:
  "length bs = length reqs \<Longrightarrow> length (filter (\<lambda>match. match) bs) \<noteq> length reqs \<Longrightarrow>
   set (map fst (filter (\<lambda>rm. \<not> snd rm) (zip reqs bs))) \<noteq> {}"
proof -
  assume len: "length bs = length reqs"
    and ne: "length (filter (\<lambda>match. match) bs) \<noteq> length reqs"
  from ne len all_matched_iff [of bs] obtain b where "b \<in> set bs" "\<not> b" by auto
  then obtain i where i: "i < length bs" "bs ! i = False" by (auto simp: in_set_conv_nth)
  with len have "(reqs ! i, False) \<in> set (zip reqs bs)"
    by (auto simp: set_zip intro!: exI [of _ i])
  then have "reqs ! i \<in> set (map fst (filter (\<lambda>rm. \<not> snd rm) (zip reqs bs)))"
    by force
  then show ?thesis by (metis empty_iff)
qed

lemma apply_product_requirement_clauses_step:
  "apply_each rec c st = Some (matched, (fc, pcc)) \<Longrightarrow>
   apply_product_requirement_clauses rec planner (c # clauses) st =
     (if length (filter (\<lambda>match. match) matched) = length c then
        Some (True, (fc \<union> set c, pcc))
      else if length (filter (\<lambda>match. match) matched) > 0 then
        apply_product_requirement_clauses rec planner clauses
          (fc, foldl (record_partial planner
                 (set (map fst (filter (\<lambda>rm. \<not> snd rm) (zip c matched)))))
                 pcc (pyset (\<lambda>r. r) (map fst (filter snd (zip c matched)))))
      else apply_product_requirement_clauses rec planner clauses (fc, pcc))"
  by (simp add: Let_def)

lemma apply_product_requirement_clauses_sound:
  assumes H: "rec_sound J reg rec"
  shows "apply_product_requirement_clauses rec planner clauses st = Some (b, st') \<Longrightarrow>
         (\<forall>clause \<in> set clauses. \<exists>out cls. (planner, cls) \<in> set (product_requirements reg out)
              \<and> clause \<in> set cls) \<Longrightarrow>
         partials_sound J reg (snd st) \<Longrightarrow> partials_sound J reg (snd st')"
proof (induction clauses arbitrary: st)
  case Nil then show ?case by simp
next
  case (Cons c clauses)
  obtain matched fc pcc where 1: "apply_each rec c st = Some (matched, (fc, pcc))"
  proof (cases "apply_each rec c st")
    case None
    with Cons.prems(1) show ?thesis by simp
  next
    case (Some a)
    with that show ?thesis by (cases a) auto
  qed
  note step = apply_product_requirement_clauses_step [OF 1, of planner clauses]
  from apply_each_sound [OF H 1] Cons.prems(3) have
    J: "map J c = map Some matched" and s1: "partials_sound J reg pcc" by auto
  have len: "length matched = length c" using apply_each_length [OF 1] .
  from Cons.prems(2) obtain out cls where
    cl: "(planner, cls) \<in> set (product_requirements reg out)" "c \<in> set cls" by auto
  have rest: "\<forall>clause \<in> set clauses. \<exists>out cls. (planner, cls) \<in> set (product_requirements reg out)
              \<and> clause \<in> set cls" using Cons.prems(2) by simp
  let ?consumed = "pyset (\<lambda>r. r) (map fst (filter snd (zip c matched)))"
  let ?unconsumed = "set (map fst (filter (\<lambda>rm. \<not> snd rm) (zip c matched)))"
  show ?case
  proof (cases "length (filter (\<lambda>match. match) matched) = length c")
    case True
    from Cons.prems(1) have "st' = (fc \<union> set c, pcc)"
      unfolding step by (simp only: True if_True simp_thms option.inject prod.inject)
    with s1 show ?thesis by simp
  next
    case False
    show ?thesis
    proof (cases "length (filter (\<lambda>match. match) matched) > 0")
      case True
      have ne: "?unconsumed \<noteq> {}" by (rule some_unmatched [OF len False])
      have "\<forall>x \<in> set ?consumed. J x = Some True \<and> (\<forall>u \<in> ?unconsumed. J u = Some False \<and>
           (\<exists>out clauses clause. (planner, clauses) \<in> set (product_requirements reg out)
              \<and> clause \<in> set clauses \<and> x \<in> set clause \<and> u \<in> set clause))"
      proof (intro ballI conjI)
        fix x assume "x \<in> set ?consumed"
        with set_pyset_subset [of "\<lambda>r. r" "map fst (filter snd (zip c matched))"]
        have "x \<in> set (map fst (filter snd (zip c matched)))" by (rule_tac subsetD)
        then have x: "(x, True) \<in> set (zip c matched)" by auto
        from zip_judged [OF J x] show "J x = Some True" .
        fix u assume "u \<in> ?unconsumed"
        then have u: "(u, False) \<in> set (zip c matched)" by auto
        from zip_judged [OF J u] show "J u = Some False" .
        from x have xc: "x \<in> set c" by (rule set_zip_leftD)
        from u have uc: "u \<in> set c" by (rule set_zip_leftD)
        from cl xc uc show "\<exists>out clauses clause. (planner, clauses) \<in> set (product_requirements reg out)
              \<and> clause \<in> set clauses \<and> x \<in> set clause \<and> u \<in> set clause" by blast
      qed
      from foldl_record_partial_sound [OF ne this s1]
      have s2: "partials_sound J reg (foldl (record_partial planner ?unconsumed) pcc ?consumed)" .
      from Cons.prems(1) have
        "apply_product_requirement_clauses rec planner clauses
           (fc, foldl (record_partial planner ?unconsumed) pcc ?consumed) = Some (b, st')"
        unfolding step by (simp only: False True if_False if_True simp_thms)
      from Cons.IH [OF this rest] s2 show ?thesis by simp
    next
      case F2: False
      from Cons.prems(1) have
        "apply_product_requirement_clauses rec planner clauses (fc, pcc) = Some (b, st')"
        unfolding step by (simp only: False F2 if_False simp_thms)
      from Cons.IH [OF this rest] s1 show ?thesis by simp
    qed
  qed
qed

lemma apply_planners_sound:
  assumes H: "rec_sound J reg rec"
  shows "apply_planners rec entries m st = Some (b, st') \<Longrightarrow>
         set entries \<subseteq> set (product_requirements reg out) \<Longrightarrow>
         partials_sound J reg (snd st) \<Longrightarrow> partials_sound J reg (snd st')"
proof (induction entries arbitrary: m st)
  case Nil then show ?case by simp
next
  case (Cons e entries)
  from Cons.prems(1) obtain k sa where
    1: "apply_product_requirement_clauses rec (fst e) (snd e) st = Some (k, sa)"
    by (auto split: option.splits)
  with Cons.prems(1) have 2: "apply_planners rec entries (m \<or> k) sa = Some (b, st')" by simp
  have "\<forall>clause \<in> set (snd e). \<exists>out cls. (fst e, cls) \<in> set (product_requirements reg out)
              \<and> clause \<in> set cls"
    using Cons.prems(2) by (cases e) auto
  from apply_product_requirement_clauses_sound [OF H 1 this Cons.prems(3)]
  have "partials_sound J reg (snd sa)" .
  from Cons.IH [OF 2 _ this] Cons.prems(2) show ?case by simp
qed

lemma judged_mono:
  "fuel \<le> fuel' \<Longrightarrow> judged fuel reg ins out = Some b \<Longrightarrow> judged fuel' reg ins out = Some b"
  unfolding judged_def
  by (auto dest: apply_product_requirements_mono simp del: apply_product_requirements.simps)

lemma apply_product_requirements_sound:
  "fuel \<le> F \<Longrightarrow> rec_sound (judged F reg ins) reg (apply_product_requirements fuel reg ins)"
proof (induction fuel)
  case 0
  show ?case unfolding rec_sound_def
  proof (intro allI impI)
    fix x st b st'
    assume run: "apply_product_requirements 0 reg ins x st = Some (b, st')"
    from judged_mono [OF 0 apply_product_requirements_judged [OF run]]
    have "judged F reg ins x = Some b" .
    moreover from run have "st' = st" by (auto split: if_splits)
    ultimately show "judged F reg ins x = Some b \<and>
        (partials_sound (judged F reg ins) reg (snd st) \<longrightarrow>
         partials_sound (judged F reg ins) reg (snd st'))" by simp
  qed
next
  case (Suc fuel)
  then have IH: "rec_sound (judged F reg ins) reg (apply_product_requirements fuel reg ins)"
    by simp
  show ?case unfolding rec_sound_def
  proof (intro allI impI)
    fix x st b st'
    assume run: "apply_product_requirements (Suc fuel) reg ins x st = Some (b, st')"
    from judged_mono [OF Suc.prems apply_product_requirements_judged [OF run]]
    have j: "judged F reg ins x = Some b" .
    have "partials_sound (judged F reg ins) reg (snd st')"
      if s: "partials_sound (judged F reg ins) reg (snd st)"
    proof (cases "x \<in> set ins \<or> x \<notin> output_products reg")
      case True
      with run have "st' = st" by (auto split: if_splits)
      with s show ?thesis by simp
    next
      case False
      with run have "apply_planners (apply_product_requirements fuel reg ins)
          (product_requirements reg x) False st = Some (b, st')" by simp
      from apply_planners_sound [OF IH this subset_refl s] show ?thesis .
    qed
    with j show "judged F reg ins x = Some b \<and>
        (partials_sound (judged F reg ins) reg (snd st) \<longrightarrow>
         partials_sound (judged F reg ins) reg (snd st'))" by simp
  qed
qed

lemma solve_outputs_sound:
  "solve_outputs fuel reg ins outs (found, st) = Some (found1, st1) \<Longrightarrow>
   partials_sound (judged fuel reg ins) reg (snd st) \<Longrightarrow>
   partials_sound (judged fuel reg ins) reg (snd st1)"
proof (induction outs arbitrary: found st)
  case Nil then show ?case by simp
next
  case (Cons out outs)
  from Cons.prems(1) obtain ok sa where
    1: "apply_product_requirements fuel reg ins out st = Some (ok, sa)"
    by (auto split: option.splits)
  from apply_product_requirements_sound [OF le_refl, of fuel reg ins] 1 Cons.prems(2)
  have s: "partials_sound (judged fuel reg ins) reg (snd sa)"
    unfolding rec_sound_def by blast
  from Cons.prems(1) 1 have "solve_outputs fuel reg ins outs
      (if ok then found @ [out] else found, sa) = Some (found1, st1)" by simp
  from Cons.IH [OF this s] show ?case .
qed

lemma solve_outputs_total:
  "(\<And>out st. out \<in> set outs \<Longrightarrow> apply_product_requirements fuel reg ins out st \<noteq> None) \<Longrightarrow>
   solve_outputs fuel reg ins outs (found, st) \<noteq> None"
proof (induction outs arbitrary: found st)
  case Nil then show ?case by simp
next
  case (Cons out outs)
  from Cons.prems [of out st] obtain ok sa where
    1: "apply_product_requirements fuel reg ins out st = Some (ok, sa)" by auto
  have "solve_outputs fuel reg ins outs (if ok then found @ [out] else found, sa) \<noteq> None"
    by (rule Cons.IH) (rule Cons.prems, simp)
  then show ?case by (simp add: 1)
qed

lemma solve_outputs_returns:
  assumes w: "wf (requirement_edges reg ins)"
  shows "\<exists>F. \<forall>fuel\<ge>F. \<forall>found st. \<exists>found1 fc pcc.
           solve_outputs fuel reg ins outs (found, st) = Some (found1, (fc, pcc))"
proof -
  have "\<exists>N. \<forall>out \<in> set outs. \<forall>m\<ge>N. \<forall>st. \<exists>ok st'.
      apply_product_requirements m reg ins out st = Some (ok, st')"
    by (rule finite_uniform_bound) (simp, rule apply_product_requirements_returns [OF w])
  then obtain N where N: "\<And>out m st. out \<in> set outs \<Longrightarrow> N \<le> m \<Longrightarrow>
      apply_product_requirements m reg ins out st \<noteq> None"
    by fastforce
  have "\<forall>fuel\<ge>N. \<forall>found st. \<exists>found1 fc pcc.
           solve_outputs fuel reg ins outs (found, st) = Some (found1, (fc, pcc))"
  proof (intro allI impI)
    fix fuel :: nat and found :: "'a list" and st :: "('b, 'a) acc"
    assume le: "N \<le> fuel"
    have "solve_outputs fuel reg ins outs (found, st) \<noteq> None"
      by (rule solve_outputs_total) (rule N [OF _ le])
    then show "\<exists>found1 fc pcc. solve_outputs fuel reg ins outs (found, st) = Some (found1, (fc, pcc))"
      by (cases "solve_outputs fuel reg ins outs (found, st)") auto
  qed
  then show ?thesis ..
qed

lemma produced_types_for_subject_from_loop:
  assumes 1: "solve_outputs fuel reg (for_subject subj) outs ([], ({}, Map.empty))
          = Some (producible, (fc, pcc))"
  shows "produced_types_for_subject fuel for_subject reg subj outs
        = Some (if \<exists>product \<in> dom pcc. product \<notin> fc
                then Inl (PartiallyConsumedInputsError (last outs) subj (pcc |` (- fc)))
                else Inr producible)
      \<and> producible = filter (\<lambda>out. judged fuel reg (for_subject subj) out = Some True) outs
      \<and> partials_sound (judged fuel reg (for_subject subj)) reg pcc
      \<and> ((\<exists>product \<in> dom pcc. product \<notin> fc) \<longrightarrow> outs \<noteq> [])"
proof -
  have p: "producible = filter (\<lambda>out. judged fuel reg (for_subject subj) out = Some True) outs"
    using solve_outputs_result [OF 1] by simp
  have "partials_sound (judged fuel reg (for_subject subj)) reg Map.empty"
    by (simp add: partials_sound_def)
  with solve_outputs_sound [OF 1]
  have s: "partials_sound (judged fuel reg (for_subject subj)) reg pcc" by simp
  have e: "(pcc |` (- fc) \<noteq> Map.empty) = (\<exists>product \<in> dom pcc. product \<notin> fc)"
    by (auto simp: restrict_map_def fun_eq_iff dom_def)
  have n: "(\<exists>product \<in> dom pcc. product \<notin> fc) \<longrightarrow> outs \<noteq> []"
  proof (intro impI notI)
    assume c: "\<exists>product \<in> dom pcc. product \<notin> fc" and "outs = []"
    with 1 have "pcc = Map.empty" by simp
    with c show False by simp
  qed
  have r: "produced_types_for_subject fuel for_subject reg subj outs
        = Some (if \<exists>product \<in> dom pcc. product \<notin> fc
                then Inl (PartiallyConsumedInputsError (last outs) subj (pcc |` (- fc)))
                else Inr producible)"
    unfolding e [symmetric] by (simp add: produced_types_for_subject_def 1 Let_def)
  from r p s n show ?thesis by blast
qed

text \<open>
  C3. The loop of \<^verbatim>\<open>produced_types_for_subject\<close> over the candidate outputs ends, with a list
  of producible outputs and the two accumulators, whenever the requirement graph of the
  registry over the subject's non-native product types is well-founded and the solver is
  given enough depth. Whenever the loop ends, the call has a result: it raises
  \<^verbatim>\<open>PartiallyConsumedInputsError\<close> exactly when some key of the partially consumed
  accumulator is not in the fully consumed set, and the error then carries the last
  candidate output (there is one), the subject and the accumulator restricted to the keys
  that are not fully consumed, whose entries give for a consumed (producible) product and
  a planner a non-empty set of requirements of that planner that are not producible;
  otherwise it returns the candidates that the solver judged producible, in input order.
\<close>

theorem produced_types_for_subject_spec:
  "(wf (requirement_edges reg (for_subject subj)) \<longrightarrow>
      (\<exists>F. \<forall>fuel'\<ge>F. \<exists>producible' fully_consumed' pcc'.
          solve_outputs fuel' reg (for_subject subj) outs ([], ({}, Map.empty))
            = Some (producible', (fully_consumed', pcc'))))
   \<and> (solve_outputs fuel reg (for_subject subj) outs ([], ({}, Map.empty))
          = Some (producible, (fully_consumed, pcc)) \<longrightarrow>
        produced_types_for_subject fuel for_subject reg subj outs
          = Some (if \<exists>product \<in> dom pcc. product \<notin> fully_consumed
                  then Inl (PartiallyConsumedInputsError (last outs) subj
                              (pcc |` (- fully_consumed)))
                  else Inr producible)
        \<and> producible = filter (\<lambda>out. judged fuel reg (for_subject subj) out = Some True) outs
        \<and> partials_sound (judged fuel reg (for_subject subj)) reg pcc
        \<and> ((\<exists>product \<in> dom pcc. product \<notin> fully_consumed) \<longrightarrow> outs \<noteq> []))"
proof (intro conjI impI)
  assume "wf (requirement_edges reg (for_subject subj))"
  from solve_outputs_returns [OF this, of outs]
  show "\<exists>F. \<forall>fuel'\<ge>F. \<exists>producible' fully_consumed' pcc'.
          solve_outputs fuel' reg (for_subject subj) outs ([], ({}, Map.empty))
            = Some (producible', (fully_consumed', pcc'))"
    by blast
next
  assume 1: "solve_outputs fuel reg (for_subject subj) outs ([], ({}, Map.empty))
          = Some (producible, (fully_consumed, pcc))"
  note r = produced_types_for_subject_from_loop
    [where for_subject = for_subject and subj = subj, OF 1]
  from r show "produced_types_for_subject fuel for_subject reg subj outs
          = Some (if \<exists>product \<in> dom pcc. product \<notin> fully_consumed
                  then Inl (PartiallyConsumedInputsError (last outs) subj
                              (pcc |` (- fully_consumed)))
                  else Inr producible)" by blast
  from r show "producible = filter (\<lambda>out. judged fuel reg (for_subject subj) out = Some True) outs"
    by blast
  from r show "partials_sound (judged fuel reg (for_subject subj)) reg pcc" by blast
  assume "\<exists>product \<in> dom pcc. product \<notin> fully_consumed"
  with r show "outs \<noteq> []" by blast
qed

lemma example_loop_precompiled:
  "solve_outputs 2 example_planners [''Precompiled''] [''Sources'', ''Classes'']
     ([], ({}, Map.empty)) = Some ([''Classes''], ({''Precompiled''}, Map.empty))"
  by (simp add: numeral_2_eq_2 example_planners_tables)

lemma example_loop_partial:
  "solve_outputs 2 example_planners [''Precompiled'', ''Thrift''] [''Classes'']
     ([], ({}, Map.empty))
   = Some ([''Classes''], ({''Thrift'', ''Precompiled''},
             [''Sources'' \<mapsto> [''Javac'' \<mapsto> {''Deps''}]]))"
  by (simp add: numeral_2_eq_2 example_planners_tables pyset_def set_add_def record_partial_def
      Let_def insert_commute)

theorem produced_types_for_subject_spec_witness:
  "wf (requirement_edges example_planners [''Precompiled'', ''Thrift''])
   \<and> (\<exists>F. \<forall>fuel'\<ge>F. \<exists>producible' fully_consumed' pcc'.
          solve_outputs fuel' example_planners [''Precompiled'', ''Thrift''] [''Classes'']
            ([], ({}, Map.empty)) = Some (producible', (fully_consumed', pcc')))
   \<and> solve_outputs 2 example_planners [''Precompiled''] [''Sources'', ''Classes'']
        ([], ({}, Map.empty)) = Some ([''Classes''], ({''Precompiled''}, Map.empty))
   \<and> produced_types_for_subject 2 (\<lambda>s. [''Precompiled'']) example_planners (Plain (1::nat))
        [''Sources'', ''Classes''] = Some (Inr [''Classes''])
   \<and> solve_outputs 2 example_planners [''Precompiled'', ''Thrift''] [''Classes'']
        ([], ({}, Map.empty))
       = Some ([''Classes''], ({''Thrift'', ''Precompiled''},
                 [''Sources'' \<mapsto> [''Javac'' \<mapsto> {''Deps''}]]))
   \<and> produced_types_for_subject 2 (\<lambda>s. [''Precompiled'', ''Thrift'']) example_planners
        (Plain (1::nat)) [''Classes''] =
       Some (Inl (PartiallyConsumedInputsError ''Classes'' (Plain 1)
               [''Sources'' \<mapsto> [''Javac'' \<mapsto> {''Deps''}]]))
   \<and> partials_sound (judged 2 example_planners [''Precompiled'', ''Thrift'']) example_planners
        [''Sources'' \<mapsto> [''Javac'' \<mapsto> {''Deps''}]]"
proof -
  note a = produced_types_for_subject_spec
    [where reg = example_planners and for_subject = "\<lambda>s. [''Precompiled'']"
       and subj = "Plain (1::nat)" and outs = "[''Sources'', ''Classes'']" and fuel = 2
       and producible = "[''Classes'']" and fully_consumed = "{''Precompiled''}"
       and pcc = Map.empty]
  note b = produced_types_for_subject_spec
    [where reg = example_planners and for_subject = "\<lambda>s. [''Precompiled'', ''Thrift'']"
       and subj = "Plain (1::nat)" and outs = "[''Classes'']" and fuel = 2
       and producible = "[''Classes'']" and fully_consumed = "{''Thrift'', ''Precompiled''}"
       and pcc = "[''Sources'' \<mapsto> [''Javac'' \<mapsto> {''Deps''}]]"]
  have w: "wf (requirement_edges example_planners [''Precompiled'', ''Thrift''])"
    by (rule example_planners_wf)
  note a2 = a [THEN conjunct2, THEN mp, OF example_loop_precompiled]
  note b1 = b [THEN conjunct1, THEN mp, OF w]
  note b2 = b [THEN conjunct2, THEN mp, OF example_loop_partial]
  from a2 [THEN conjunct1]
  have 1: "produced_types_for_subject 2 (\<lambda>s. [''Precompiled'']) example_planners (Plain (1::nat))
        [''Sources'', ''Classes''] = Some (Inr [''Classes''])" by simp
  from b2 [THEN conjunct1]
  have 3: "produced_types_for_subject 2 (\<lambda>s. [''Precompiled'', ''Thrift'']) example_planners
        (Plain (1::nat)) [''Classes''] =
       Some (Inl (PartiallyConsumedInputsError ''Classes'' (Plain 1)
               [''Sources'' \<mapsto> [''Javac'' \<mapsto> {''Deps''}]]))"
    by simp
  note 4 = b2 [THEN conjunct2, THEN conjunct2, THEN conjunct1]
  show ?thesis
    apply (intro conjI)
          apply (rule w)
         apply (rule b1)
        apply (rule example_loop_precompiled)
       apply (rule 1)
      apply (rule example_loop_partial)
     apply (rule 3)
    apply (rule 4)
    done
qed

section \<open>Properties of the local scheduler\<close>

lemma resolve_candidates_empty:
  "resolve_candidates pt subj cfg [] st = (Inl (NoProducersError pt subj), st)"
  by (simp add: resolve_candidates_def)

lemma resolve_candidates_many:
  "2 \<le> length plans \<Longrightarrow>
   resolve_candidates pt subj cfg plans st
     = (Inl (ConflictingProducersError pt subj (map fst plans)), st)"
  by (simp add: resolve_candidates_def)

lemma resolve_candidates_one:
  "resolve_candidates pt subj cfg [(planner, plan)] st =
     (if \<exists>sb \<in> set (subjects plan). eq_primary (Some subj) (primary sb)
      then (Inr (fst (register_loop pt plan (Some subj) cfg (subjects plan) (None, product_mapper st))),
            st\<lparr>product_mapper := snd (register_promises (product_mapper st) pt plan (Some subj) cfg),
               plans_by_product_type_by_planner :=
                 record_plan planner pt plan (plans_by_product_type_by_planner st)\<rparr>)
      else (Inl SchedulingError,
            st\<lparr>product_mapper := snd (register_promises (product_mapper st) pt plan (Some subj) cfg)\<rparr>))"
proof -
  obtain r m where rm: "register_promises (product_mapper st) pt plan (Some subj) cfg = (r, m)"
    by (cases "register_promises (product_mapper st) pt plan (Some subj) cfg")
  have f: "r = (if fst (register_loop pt plan (Some subj) cfg (subjects plan) (None, product_mapper st)) = None
      then Inl InvalidRegistrationError
      else Inr (fst (register_loop pt plan (Some subj) cfg (subjects plan) (None, product_mapper st))))"
    using register_promises_fst [of "product_mapper st" pt plan "Some subj" cfg] by (simp add: rm)
  have n: "(fst (register_loop pt plan (Some subj) cfg (subjects plan) (None, product_mapper st)) = None)
      = (\<not> (\<exists>sb \<in> set (subjects plan). eq_primary (Some subj) (primary sb)))"
    by (simp add: register_loop_none)
  show ?thesis
  proof (cases "\<exists>sb \<in> set (subjects plan). eq_primary (Some subj) (primary sb)")
    case True
    with n f have "r = Inr (fst (register_loop pt plan (Some subj) cfg (subjects plan) (None, product_mapper st)))"
      by simp
    with True show ?thesis by (simp add: resolve_candidates_def rm)
  next
    case False
    with n f have "r = Inl InvalidRegistrationError" by simp
    with False show ?thesis by (simp add: resolve_candidates_def rm)
  qed
qed

lemma planner_candidates_calls:
  "planner_candidates fuel env pt subj cfg entries pcc st = Some (Inr pairs, st1) \<Longrightarrow>
   \<exists>calls.
     candidate_planners fuel (config_type env) (planners env) (native_products env subj) cfg
       entries pcc = Some (map fst calls)
     \<and> (\<forall>c \<in> set calls. fst (plan_method env (fst c) (fst (snd c)) pt subj cfg) = Inr (snd (snd c)))
     \<and> pairs = pairs_of_calls calls"
proof (induction entries arbitrary: pcc st pairs)
  case Nil
  then show ?case by (auto simp: pairs_of_calls_def intro: exI [of _ "[]"])
next
  case (Cons entry entries)
  let ?cl = "apply_product_requirement_clauses
             (apply_product_requirements fuel (planners env) (native_products env subj))
             (fst entry) (snd entry) ({}, pcc)"
  obtain ok fc pcc' where cl: "?cl = Some (ok, (fc, pcc'))"
  proof (cases ?cl)
    case None with Cons.prems show ?thesis by simp
  next
    case (Some a) with that show ?thesis by (cases a) auto
  qed
  let ?sel = "ok \<and> (case cfg of None \<Rightarrow> True | Some c \<Rightarrow> config_type env c \<in> fc)"
  show ?case
  proof (cases ?sel)
    case False
    with Cons.prems cl have
      "planner_candidates fuel env pt subj cfg entries pcc' st = Some (Inr pairs, st1)"
      by auto
    from Cons.IH [OF this] obtain calls where
      c: "candidate_planners fuel (config_type env) (planners env) (native_products env subj) cfg
            entries pcc' = Some (map fst calls)"
        "\<forall>c \<in> set calls. fst (plan_method env (fst c) (fst (snd c)) pt subj cfg) = Inr (snd (snd c))"
        "pairs = pairs_of_calls calls" by blast
    have "candidate_planners fuel (config_type env) (planners env) (native_products env subj) cfg
            (entry # entries) pcc = Some (map fst calls)"
      using False by (auto simp: cl c(1))
    with c(2,3) show ?thesis by blast
  next
    case True
    obtain r st' where pm: "plan_method env (fst entry) st pt subj cfg = (r, st')"
      by (cases "plan_method env (fst entry) st pt subj cfg")
    from Cons.prems cl True pm obtain plan where r: "r = Inr plan"
      by (cases r) auto
    from Cons.prems cl True pm r obtain plans where
      rec: "planner_candidates fuel env pt subj cfg entries pcc' st' = Some (Inr plans, st1)"
      and pairs: "pairs = (case plan of None \<Rightarrow> plans | Some pl \<Rightarrow> (Planner (fst entry), pl) # plans)"
      by (auto split: option.splits sum.splits)
    from Cons.IH [OF rec] obtain calls where
      c: "candidate_planners fuel (config_type env) (planners env) (native_products env subj) cfg
            entries pcc' = Some (map fst calls)"
        "\<forall>c \<in> set calls. fst (plan_method env (fst c) (fst (snd c)) pt subj cfg) = Inr (snd (snd c))"
        "plans = pairs_of_calls calls" by blast
    let ?calls = "(fst entry, st, plan) # calls"
    have 1: "candidate_planners fuel (config_type env) (planners env) (native_products env subj) cfg
            (entry # entries) pcc = Some (map fst ?calls)"
      using True by (auto simp: cl c(1))
    have 2: "\<forall>c \<in> set ?calls. fst (plan_method env (fst c) (fst (snd c)) pt subj cfg) = Inr (snd (snd c))"
      using c(2) pm r by simp
    have 3: "pairs = pairs_of_calls ?calls"
      using pairs c(3) by (cases plan) (simp_all add: pairs_of_calls_def)
    from 1 2 3 show ?thesis by blast
  qed
qed

lemma native_candidates_distinct:
  "distinct (native_products env subj) \<Longrightarrow>
   native_candidates env pt subj =
     (if pt \<in> set (native_products env subj)
      then [(NoPlanner, Plan_init (lift_native_product env) [subj]
               [(''subject'', PObj subj), (''product_type'', PType pt)])]
      else [])"
proof -
  have "distinct xs \<Longrightarrow> filter (\<lambda>n. n = pt) xs = (if pt \<in> set xs then [pt] else [])" for xs
    by (induction xs) auto
  then show "distinct (native_products env subj) \<Longrightarrow> ?thesis"
    by (simp add: native_candidates_def)
qed

lemma set_add_key_mem: "key x \<in> key ` set (set_add key acc x)"
  by (simp add: set_add_def)

lemma resolve_candidates_spec:
  assumes rc: "resolve_candidates pt subj cfg plans st1 = (result, st2)"
  shows "((\<exists>t s. result = Inl (NoProducersError t s)) = (plans = []))
    \<and> (plans = [] \<longrightarrow> result = Inl (NoProducersError pt subj) \<and> st2 = st1)
    \<and> ((\<exists>t s l. result = Inl (ConflictingProducersError t s l)) = (2 \<le> length plans))
    \<and> (2 \<le> length plans \<longrightarrow>
          result = Inl (ConflictingProducersError pt subj (map fst plans)) \<and> st2 = st1)
    \<and> (\<forall>planner plan. plans = [(planner, plan)] \<longrightarrow>
          product_mapper st2 = snd (register_promises (product_mapper st1) pt plan (Some subj) cfg)
          \<and> (if \<exists>sb \<in> set (subjects plan). eq_primary (Some subj) (primary sb)
              then (\<exists>p. result = Inr (Some p) \<and> Promise_eq p (Promise_init pt subj cfg)
                        \<and> promised (product_mapper st2) p = Some plan)
                   \<and> Plan_key plan \<in> Plan_key ` set (plans_by_product_type_by_planner st2 planner pt)
              else result = Inl SchedulingError))"
proof -
  consider (none) "plans = []" | (one) planner plan where "plans = [(planner, plan)]"
    | (many) "2 \<le> length plans"
  proof (cases plans)
    case Nil then show ?thesis using none by simp
  next
    case (Cons a rest)
    show ?thesis
    proof (cases rest)
      case Nil with Cons show ?thesis using one [of "fst a" "snd a"] by simp
    next
      case (Cons b rest') with \<open>plans = a # rest\<close> show ?thesis using many by simp
    qed
  qed
  then show ?thesis
  proof cases
    case none
    with rc show ?thesis by (auto simp: resolve_candidates_empty)
  next
    case many
    then have "plans \<noteq> []" "\<And>planner plan. plans \<noteq> [(planner, plan)]" by auto
    with rc many show ?thesis by (auto simp: resolve_candidates_many)
  next
    case (one planner plan)
    let ?m = "snd (register_promises (product_mapper st1) pt plan (Some subj) cfg)"
    let ?pp = "fst (register_loop pt plan (Some subj) cfg (subjects plan) (None, product_mapper st1))"
    show ?thesis
    proof (cases "\<exists>sb \<in> set (subjects plan). eq_primary (Some subj) (primary sb)")
      case False
      with rc one have r: "result = Inl SchedulingError" "st2 = st1\<lparr>product_mapper := ?m\<rparr>"
        by (simp_all add: resolve_candidates_one)
      with one False show ?thesis by simp
    next
      case True
      with rc one have r: "result = Inr ?pp"
        "st2 = st1\<lparr>product_mapper := ?m,
               plans_by_product_type_by_planner :=
                 record_plan planner pt plan (plans_by_product_type_by_planner st1)\<rparr>"
        by (simp_all add: resolve_candidates_one)
      from True have "?pp \<noteq> None" by (simp add: register_loop_none)
      then obtain p where p: "?pp = Some p" by auto
      from register_loop_some [OF p] obtain sb where
        sb: "sb \<in> set (subjects plan)" "eq_primary (Some subj) (primary sb)"
          "p = Promise_init pt (Wrapped sb) cfg" by auto
      from sb(2) have subj: "subj = Plain (primary sb)" by (cases subj) auto
      have eq: "Promise_eq p (Promise_init pt subj cfg)"
        by (simp add: sb(3) subj Promise_eq_def Promise_key_def Promise_init_def as_subject_def)
      have pr: "promised (product_mapper st2) p = Some plan"
        using sb(1) by (auto simp: r(2) promised_def register_promises_lookup sb(3))
      have rec: "Plan_key plan \<in> Plan_key ` set (plans_by_product_type_by_planner st2 planner pt)"
        by (simp add: r(2) record_plan_def set_add_key_mem)
      have m: "product_mapper st2 = ?m" by (simp add: r(2))
      from one True r(1) p eq pr rec m show ?thesis by auto
    qed
  qed
qed

lemma promise_slow:
  "promised (product_mapper st) (Promise_init pt (resolve_subject (graph env) x) cfg) = None \<Longrightarrow>
   promise fuel env st x pt cfg =
     (case candidates fuel env pt (resolve_subject (graph env) x) cfg st of
        None \<Rightarrow> None
      | Some (Inl e, st') \<Rightarrow> Some (Inl (PlannerRaised e), st')
      | Some (Inr plans, st') \<Rightarrow>
          Some (resolve_candidates pt (resolve_subject (graph env) x) cfg plans st'))"
  by (simp add: promise_def Let_def)

lemma uncovering_env_tables:
  "product_requirements (planners uncovering_env) ''Classes'' = [(''P'', [[]])]"
  by (simp add: uncovering_env_def Planners_init_def add_planner_def add_product_type_def)

lemma uncovering_candidates:
  "candidates 0 uncovering_env ''Classes'' (Plain 10) None initial_state
     = Some (Inr [(Planner ''P'', Plan_init ''P'' [Plain 20] [])], initial_state)"
proof -
  have e: "native_products uncovering_env = (\<lambda>s. [])"
    "plan_method uncovering_env = (\<lambda>p st pt subj cfg. (Inr (Some (Plan_init p [Plain 20] [])), st))"
    by (simp_all add: uncovering_env_def)
  show ?thesis
    by (simp add: candidates_def e uncovering_env_tables native_candidates_def)
qed

lemma example_env_candidates:
  "candidates (Suc 0) example_env ''Classes'' (Plain 10) None initial_state
     = Some (Inr [(Planner ''Javac'', Plan_init ''Javac'' [Plain 10] [])], initial_state)"
proof -
  have e: "planners example_env = example_planners"
    "native_products example_env = (\<lambda>s. [''Precompiled''])"
    "plan_method example_env = (\<lambda>p st pt subj cfg. (Inr (Some (Plan_init p [subj] [])), st))"
    by (simp_all add: example_env_def)
  show ?thesis
    by (simp add: candidates_def e example_planners_tables native_candidates_def)
qed

lemma example_env_promise:
  "\<exists>st2. promise (Suc 0) example_env initial_state (NotAnAddress (Plain 10)) ''Classes'' None
     = Some (Inr (Some (Promise_init ''Classes'' (Plain 10) None)), st2)"
proof -
  have g: "resolve_subject (graph example_env) (NotAnAddress (Plain 10)) = Plain 10"
    by (simp add: resolve_subject_def)
  have s: "subjects (Plan_init ''Javac'' [Plain (10::nat)] []) = [\<lparr>primary = 10, alternate = None\<rparr>]"
    by (simp add: Plan_init_def pyset_def set_add_def as_subject_def)
  have "promised (product_mapper initial_state)
          (Promise_init ''Classes'' (Plain (10::nat)) (None :: string option)) = None"
    by (simp add: initial_state_def promised_def)
  then have "promise (Suc 0) example_env initial_state (NotAnAddress (Plain 10)) ''Classes'' None
      = Some (resolve_candidates ''Classes'' (Plain 10) None
               [(Planner ''Javac'', Plan_init ''Javac'' [Plain 10] [])] initial_state)"
    by (simp add: promise_def Let_def g example_env_candidates)
  then show ?thesis
    by (simp add: resolve_candidates_one s Promise_init_def as_subject_def Let_def)
qed

text \<open>
  C1 (as stated, refuted). The claim says that with exactly one candidate the plan is
  registered and the primary promise is returned. A single planner \<open>P\<close> that answers the
  request for subject \<open>10\<close> with a plan whose only subject is \<open>20\<close> gives exactly one
  candidate, and \<^verbatim>\<open>promise\<close> raises \<^verbatim>\<open>SchedulingError\<close>: the registration raised
  \<^verbatim>\<open>InvalidRegistrationError\<close>, which \<^verbatim>\<open>promise\<close> catches and rewraps.
\<close>

theorem promise_single_candidate_counterexample:
  "candidates 0 uncovering_env ''Classes'' (Plain 10) None initial_state
     = Some (Inr [(Planner ''P'', Plan_init ''P'' [Plain 20] [])], initial_state)
   \<and> (\<exists>st2. promise 0 uncovering_env initial_state (NotAnAddress (Plain 10)) ''Classes'' None
              = Some (Inl SchedulingError, st2))"
proof -
  have g: "resolve_subject (graph uncovering_env) (NotAnAddress (Plain 10)) = Plain 10"
    by (simp add: resolve_subject_def)
  have s: "subjects (Plan_init ''P'' [Plain (20::nat)] []) = [\<lparr>primary = 20, alternate = None\<rparr>]"
    by (simp add: Plan_init_def pyset_def set_add_def as_subject_def)
  have "promised (product_mapper initial_state)
          (Promise_init ''Classes'' (Plain (10::nat)) (None :: string option)) = None"
    by (simp add: initial_state_def promised_def)
  then have "promise 0 uncovering_env initial_state (NotAnAddress (Plain 10)) ''Classes'' None
      = Some (resolve_candidates ''Classes'' (Plain 10) None
               [(Planner ''P'', Plan_init ''P'' [Plain 20] [])] initial_state)"
    by (simp add: promise_def Let_def g uncovering_candidates)
  then show ?thesis
    by (simp add: uncovering_candidates resolve_candidates_one s)
qed

lemma planner_candidates_total:
  assumes tot: "\<And>entry clause req st0. entry \<in> set entries \<Longrightarrow> clause \<in> set (snd entry) \<Longrightarrow>
      req \<in> set clause \<Longrightarrow>
      apply_product_requirements fuel (planners env) (native_products env subj) req st0 \<noteq> None"
  shows "planner_candidates fuel env pt subj cfg entries pcc st \<noteq> None"
  using tot
proof (induction entries arbitrary: pcc st)
  case Nil then show ?case by simp
next
  case (Cons entry entries)
  let ?cl = "apply_product_requirement_clauses
             (apply_product_requirements fuel (planners env) (native_products env subj))
             (fst entry) (snd entry) ({}, pcc)"
  have "?cl \<noteq> None"
    by (rule apply_product_requirement_clauses_total) (rule Cons.prems [of entry], simp_all)
  then obtain ok fc pcc' where cl: "?cl = Some (ok, (fc, pcc'))"
    by (cases ?cl) auto
  have rest: "planner_candidates fuel env pt subj cfg entries pcc0 st0 \<noteq> None" for pcc0 st0
    by (rule Cons.IH) (rule Cons.prems, simp_all)
  obtain r st' where pm: "plan_method env (fst entry) st pt subj cfg = (r, st')"
    by (cases "plan_method env (fst entry) st pt subj cfg")
  from rest [of pcc' st'] obtain a where a: "planner_candidates fuel env pt subj cfg entries pcc' st' = Some a"
    by auto
  show ?case
  proof (cases "ok \<and> (case cfg of None \<Rightarrow> True | Some c \<Rightarrow> config_type env c \<in> fc)")
    case False
    with rest [of pcc' st] show ?thesis by (auto simp: cl)
  next
    case True
    then show ?thesis
      by (cases r; cases a; cases "fst a") (auto simp: cl pm a)
  qed
qed

lemma candidates_returns:
  assumes w: "wf (requirement_edges (planners env) (native_products env subj))"
  shows "\<exists>F. \<forall>fuel\<ge>F. \<exists>r st1. candidates fuel env pt subj cfg st = Some (r, st1)"
proof -
  let ?R = "\<Union>entry \<in> set (product_requirements (planners env) pt).
              \<Union>clause \<in> set (snd entry). set clause"
  have "\<exists>N. \<forall>req \<in> ?R. \<forall>m\<ge>N. \<forall>st0. \<exists>ok st'.
      apply_product_requirements m (planners env) (native_products env subj) req st0 = Some (ok, st')"
    by (rule finite_uniform_bound) (simp, rule apply_product_requirements_returns [OF w])
  then obtain N where N: "\<And>req m st0. req \<in> ?R \<Longrightarrow> N \<le> m \<Longrightarrow>
      apply_product_requirements m (planners env) (native_products env subj) req st0 \<noteq> None"
    by fastforce
  have "\<forall>fuel\<ge>N. \<exists>r st1. candidates fuel env pt subj cfg st = Some (r, st1)"
  proof (intro allI impI)
    fix fuel :: nat assume le: "N \<le> fuel"
    have "planner_candidates fuel env pt subj cfg (product_requirements (planners env) pt)
            Map.empty st \<noteq> None"
    proof (rule planner_candidates_total)
      fix entry clause req st0
      assume "entry \<in> set (product_requirements (planners env) pt)" "clause \<in> set (snd entry)"
        "req \<in> set clause"
      then have "req \<in> ?R" by blast
      from N [OF this le]
      show "apply_product_requirements fuel (planners env) (native_products env subj) req st0 \<noteq> None" .
    qed
    then obtain a where "planner_candidates fuel env pt subj cfg
        (product_requirements (planners env) pt) Map.empty st = Some a" by auto
    then show "\<exists>r st1. candidates fuel env pt subj cfg st = Some (r, st1)"
      by (cases a; cases "fst a") (auto simp: candidates_def)
  qed
  then show ?thesis ..
qed

text \<open>
  C1 (amended). For a call of \<^verbatim>\<open>promise\<close> that does not take the fast path: the two loops
  that build the candidate list end whenever the requirement graph of the registry over
  the subject's non-native product types is well-founded and the solver is given enough
  depth. If a planner raised, \<^verbatim>\<open>promise\<close> raises the same. Otherwise \<^verbatim>\<open>promise\<close> has a
  result, and the candidate list is made of one pair for every planner drawn from
  \<^verbatim>\<open>for_product_type_and_subject\<close> whose \<^verbatim>\<open>plan\<close> returned a plan, followed by the synthetic
  \<^verbatim>\<open>NoPlanner\<close> pairs (exactly one when the product type is a native product of the subject
  and \<^verbatim>\<open>Products.for_subject\<close> yields no product type twice). \<^verbatim>\<open>NoProducersError\<close> is raised
  exactly when the list is empty and \<^verbatim>\<open>ConflictingProducersError\<close> exactly when it has two
  or more entries, with the product type, the subject and the planners of the list. With
  exactly one entry the plan is registered with the subject as primary subject; the
  primary promise (equal to the promise for the subject, and mapped to the plan) is
  returned and the plan is recorded for its planner when a subject of the plan has the
  requested subject as its primary, and \<^verbatim>\<open>SchedulingError\<close> is raised otherwise.
\<close>

theorem promise_resolves_candidates:
  fixes env :: "('a, 'p, 'f, 't, 's, 'c, 'e) scheduler_env"
  assumes subj: "subj = resolve_subject (graph env) x"
    and slow: "promised (product_mapper st) (Promise_init pt subj cfg) = None"
  shows "(wf (requirement_edges (planners env) (native_products env subj)) \<longrightarrow>
            (\<exists>F. \<forall>fuel'\<ge>F. \<exists>r st1'. candidates fuel' env pt subj cfg st = Some (r, st1')))
    \<and> (\<forall>e st1. candidates fuel env pt subj cfg st = Some (Inl e, st1) \<longrightarrow>
          promise fuel env st x pt cfg = Some (Inl (PlannerRaised e), st1))
    \<and> (\<forall>plans st1. candidates fuel env pt subj cfg st = Some (Inr plans, st1) \<longrightarrow>
          (\<exists>result st2 calls.
              promise fuel env st x pt cfg = Some (result, st2)
            \<and> for_product_type_and_subject fuel (native_products env) (config_type env)
                 (planners env) pt subj cfg = Some (map fst calls)
            \<and> (\<forall>c \<in> set calls.
                  fst (plan_method env (fst c) (fst (snd c)) pt subj cfg) = Inr (snd (snd c)))
            \<and> plans = pairs_of_calls calls @ native_candidates env pt subj
            \<and> (distinct (native_products env subj) \<longrightarrow>
                  native_candidates env pt subj =
                    (if pt \<in> set (native_products env subj)
                     then [(NoPlanner, Plan_init (lift_native_product env) [subj]
                              [(''subject'', PObj subj), (''product_type'', PType pt)])]
                     else []))
            \<and> ((\<exists>t s. result = Inl (NoProducersError t s)) = (plans = []))
            \<and> (plans = [] \<longrightarrow> result = Inl (NoProducersError pt subj) \<and> st2 = st1)
            \<and> ((\<exists>t s l. result = Inl (ConflictingProducersError t s l)) = (2 \<le> length plans))
            \<and> (2 \<le> length plans \<longrightarrow>
                  result = Inl (ConflictingProducersError pt subj (map fst plans)) \<and> st2 = st1)
            \<and> (\<forall>planner plan. plans = [(planner, plan)] \<longrightarrow>
                  product_mapper st2
                    = snd (register_promises (product_mapper st1) pt plan (Some subj) cfg)
                  \<and> (if \<exists>sb \<in> set (subjects plan). eq_primary (Some subj) (primary sb)
                      then (\<exists>p. result = Inr (Some p)
                                \<and> Promise_eq p (Promise_init pt subj cfg)
                                \<and> promised (product_mapper st2) p = Some plan)
                           \<and> Plan_key plan
                               \<in> Plan_key ` set (plans_by_product_type_by_planner st2 planner pt)
                      else result = Inl SchedulingError))))"
proof (intro conjI allI impI)
  assume "wf (requirement_edges (planners env) (native_products env subj))"
  from candidates_returns [OF this]
  show "\<exists>F. \<forall>fuel'\<ge>F. \<exists>r st1'. candidates fuel' env pt subj cfg st = Some (r, st1')" .
next
  fix e st1
  assume "candidates fuel env pt subj cfg st = Some (Inl e, st1)"
  with promise_slow [OF slow [unfolded subj], of fuel]
  show "promise fuel env st x pt cfg = Some (Inl (PlannerRaised e), st1)"
    by (simp add: subj)
next
  fix plans st1
  assume c: "candidates fuel env pt subj cfg st = Some (Inr plans, st1)"
  obtain result :: "('p, 't, 's, 'e) scheduling_error + ('t, 's, 'c) Promise option" and st2
    where rc: "resolve_candidates pt subj cfg plans st1 = (result, st2)"
    by (cases "resolve_candidates pt subj cfg plans st1 ::
          (('p, 't, 's, 'e) scheduling_error + ('t, 's, 'c) Promise option) \<times> _")
  from c promise_slow [OF slow [unfolded subj], of fuel] rc
  have run: "promise fuel env st x pt cfg = Some (result, st2)"
    by (simp add: subj)
  from c obtain pairs where
    pc: "planner_candidates fuel env pt subj cfg (product_requirements (planners env) pt)
           Map.empty st = Some (Inr pairs, st1)"
    and pl: "plans = pairs @ native_candidates env pt subj"
    by (auto simp: candidates_def split: option.splits sum.splits)
  from planner_candidates_calls [OF pc] obtain calls where
    k: "candidate_planners fuel (config_type env) (planners env) (native_products env subj) cfg
         (product_requirements (planners env) pt) Map.empty = Some (map fst calls)"
      "\<forall>c \<in> set calls. fst (plan_method env (fst c) (fst (snd c)) pt subj cfg) = Inr (snd (snd c))"
      "pairs = pairs_of_calls calls" by blast
  have f: "for_product_type_and_subject fuel (native_products env) (config_type env) (planners env)
        pt subj cfg = Some (map fst calls)"
    by (simp add: for_product_type_and_subject_def k(1))
  have p: "plans = pairs_of_calls calls @ native_candidates env pt subj"
    by (simp add: pl k(3))
  have n: "distinct (native_products env subj) \<longrightarrow>
          native_candidates env pt subj =
            (if pt \<in> set (native_products env subj)
             then [(NoPlanner, Plan_init (lift_native_product env) [subj]
                      [(''subject'', PObj subj), (''product_type'', PType pt)])]
             else [])"
    using native_candidates_distinct [of env subj pt] by blast
  note spec = resolve_candidates_spec [OF rc]
  show "\<exists>result st2 calls.
              promise fuel env st x pt cfg = Some (result, st2)
            \<and> for_product_type_and_subject fuel (native_products env) (config_type env)
                 (planners env) pt subj cfg = Some (map fst calls)
            \<and> (\<forall>c \<in> set calls.
                  fst (plan_method env (fst c) (fst (snd c)) pt subj cfg) = Inr (snd (snd c)))
            \<and> plans = pairs_of_calls calls @ native_candidates env pt subj
            \<and> (distinct (native_products env subj) \<longrightarrow>
                  native_candidates env pt subj =
                    (if pt \<in> set (native_products env subj)
                     then [(NoPlanner, Plan_init (lift_native_product env) [subj]
                              [(''subject'', PObj subj), (''product_type'', PType pt)])]
                     else []))
            \<and> ((\<exists>t s. result = Inl (NoProducersError t s)) = (plans = []))
            \<and> (plans = [] \<longrightarrow> result = Inl (NoProducersError pt subj) \<and> st2 = st1)
            \<and> ((\<exists>t s l. result = Inl (ConflictingProducersError t s l)) = (2 \<le> length plans))
            \<and> (2 \<le> length plans \<longrightarrow>
                  result = Inl (ConflictingProducersError pt subj (map fst plans)) \<and> st2 = st1)
            \<and> (\<forall>planner plan. plans = [(planner, plan)] \<longrightarrow>
                  product_mapper st2
                    = snd (register_promises (product_mapper st1) pt plan (Some subj) cfg)
                  \<and> (if \<exists>sb \<in> set (subjects plan). eq_primary (Some subj) (primary sb)
                      then (\<exists>p. result = Inr (Some p)
                                \<and> Promise_eq p (Promise_init pt subj cfg)
                                \<and> promised (product_mapper st2) p = Some plan)
                           \<and> Plan_key plan
                               \<in> Plan_key ` set (plans_by_product_type_by_planner st2 planner pt)
                      else result = Inl SchedulingError))"
    apply (rule exI [of _ result], rule exI [of _ st2], rule exI [of _ calls])
    apply (intro conjI)
             apply (rule run)
            apply (rule f)
           apply (rule k(2))
          apply (rule p)
         apply (rule n)
        apply (rule spec [THEN conjunct1])
       apply (rule spec [THEN conjunct2, THEN conjunct1])
      apply (rule spec [THEN conjunct2, THEN conjunct2, THEN conjunct1])
     apply (rule spec [THEN conjunct2, THEN conjunct2, THEN conjunct2, THEN conjunct1])
    apply (rule spec [THEN conjunct2, THEN conjunct2, THEN conjunct2, THEN conjunct2])
    done
qed

lemma example_env_wf:
  "wf (requirement_edges (planners example_env) (native_products example_env (Plain 10)))"
  by (simp add: example_env_def example_planners_wf)

theorem promise_resolves_candidates_witness:
  "promised (product_mapper initial_state) (Promise_init ''Classes'' (Plain 10) None) = None
   \<and> wf (requirement_edges (planners example_env) (native_products example_env (Plain 10)))
   \<and> (\<exists>F. \<forall>fuel'\<ge>F. \<exists>r st1'.
          candidates fuel' example_env ''Classes'' (Plain 10) None initial_state = Some (r, st1'))
   \<and> candidates (Suc 0) example_env ''Classes'' (Plain 10) None initial_state
        = Some (Inr [(Planner ''Javac'', Plan_init ''Javac'' [Plain 10] [])], initial_state)
   \<and> (\<exists>result st2. promise (Suc 0) example_env initial_state (NotAnAddress (Plain 10))
                      ''Classes'' None = Some (result, st2))"
proof -
  have g: "Plain 10 = resolve_subject (graph example_env) (NotAnAddress (Plain 10))"
    by (simp add: resolve_subject_def)
  have slow: "promised (product_mapper initial_state)
          (Promise_init ''Classes'' (Plain (10::nat)) (None :: string option)) = None"
    by (simp add: initial_state_def promised_def)
  note t = promise_resolves_candidates [OF g slow, of "Suc 0"]
  note t1 = t [THEN conjunct1, THEN mp, OF example_env_wf]
  note t3 = t [THEN conjunct2, THEN conjunct2, THEN spec, THEN spec, THEN mp,
               OF example_env_candidates]
  from t3 have r: "\<exists>result st2. promise (Suc 0) example_env initial_state
      (NotAnAddress (Plain 10)) ''Classes'' None = Some (result, st2)"
    by (elim exE conjE) (rule exI, rule exI, assumption)
  show ?thesis
    apply (intro conjI)
        apply (rule slow)
       apply (rule example_env_wf)
      apply (rule t1)
     apply (rule example_env_candidates)
    apply (rule r)
    done
qed

text \<open>
  C4. Promising is idempotent. When a call of \<^verbatim>\<open>promise\<close> returns a promise \<open>p\<close>, the
  product mapper afterwards maps \<open>p\<close> to a plan, and \<open>p\<close> equals the promise built from the
  arguments. Every later call with the same arguments, in any state whose product mapper
  still maps \<open>p\<close>, returns the promise built from the arguments (equal to \<open>p\<close>) and leaves
  the state as it was, whatever the planners are and whatever depth the solver is given:
  neither the solver nor a planner is consulted and nothing is registered. A registration
  never removes an entry of the product mapper, so \<open>p\<close> stays mapped.
\<close>

theorem promise_idempotent:
  fixes env env' :: "('a, 'p, 'f, 't, 's, 'c, 'e) scheduler_env"
    and st st1 st_later :: "('p, 'f, 't, 's, 'c) scheduler_state"
  assumes first: "promise fuel env st x pt cfg = Some (Inr (Some p), st1)"
  shows "promised (product_mapper st1) p \<noteq> None
    \<and> Promise_eq p (Promise_init pt (resolve_subject (graph env) x) cfg)
    \<and> (graph env' = graph env \<and> promised (product_mapper st_later) p \<noteq> None \<longrightarrow>
          promise fuel' env' st_later x pt cfg
            = Some (Inr (Some (Promise_init pt (resolve_subject (graph env) x) cfg)), st_later))
    \<and> (promised m p \<noteq> None \<longrightarrow>
          promised (snd (register_promises m pt' plan' primary_subject' cfg')) p \<noteq> None)"
proof -
  let ?subj = "resolve_subject (graph env) x"
  let ?q = "Promise_init pt ?subj cfg"
  let ?ok = "Inr (Some p) :: ('p, 't, 's, 'e) scheduling_error + ('t, 's, 'c) Promise option"
  have a: "promised (product_mapper st1) p \<noteq> None \<and> Promise_eq p ?q"
  proof (cases "promised (product_mapper st) ?q = None")
    case False
    with first have "p = ?q" "st1 = st" by (auto simp: promise_def Let_def)
    with False show ?thesis by (simp add: Promise_eq_def)
  next
    case True
    from first promise_slow [OF True, of fuel]
    have "\<exists>plans st'. resolve_candidates pt ?subj cfg plans st' = (?ok, st1)"
      by (auto split: option.splits sum.splits prod.splits)
    then obtain plans st' where
      rc: "resolve_candidates pt ?subj cfg plans st' = (?ok, st1)" by blast
    note spec = resolve_candidates_spec [OF rc]
    from spec have ne: "plans \<noteq> []" by auto
    from spec have "\<not> 2 \<le> length plans" by auto
    with ne obtain planner plan where one: "plans = [(planner, plan)]"
      by (cases plans; cases "tl plans") auto
    with spec have
      "if \<exists>sb \<in> set (subjects plan). eq_primary (Some ?subj) (primary sb)
       then (\<exists>p'. ?ok = Inr (Some p')
                  \<and> Promise_eq p' ?q \<and> promised (product_mapper st1) p' = Some plan)
            \<and> Plan_key plan \<in> Plan_key ` set (plans_by_product_type_by_planner st1 planner pt)
       else ?ok = Inl SchedulingError"
      by blast
    then show ?thesis by (auto split: if_splits)
  qed
  have b: "graph env' = graph env \<and> promised (product_mapper st_later) p \<noteq> None \<longrightarrow>
          promise fuel' env' st_later x pt cfg = Some (Inr (Some ?q), st_later)"
  proof
    assume h: "graph env' = graph env \<and> promised (product_mapper st_later) p \<noteq> None"
    with a have "promised (product_mapper st_later) ?q \<noteq> None"
      by (simp add: promised_def Promise_eq_def)
    with h show "promise fuel' env' st_later x pt cfg = Some (Inr (Some ?q), st_later)"
      by (simp add: promise_def Let_def)
  qed
  have c: "promised m p \<noteq> None \<longrightarrow>
          promised (snd (register_promises m pt' plan' primary_subject' cfg')) p \<noteq> None"
    by (simp add: promised_def register_promises_lookup)
  from a b c show ?thesis by blast
qed

theorem promise_idempotent_witness:
  "\<exists>st1. promise (Suc 0) example_env initial_state (NotAnAddress (Plain 10)) ''Classes'' None
            = Some (Inr (Some (Promise_init ''Classes'' (Plain 10) None)), st1)
     \<and> promised (product_mapper st1) (Promise_init ''Classes'' (Plain 10) None) \<noteq> None
     \<and> promise 0 uncovering_env st1 (NotAnAddress (Plain 10)) ''Classes'' None
         = Some (Inr (Some (Promise_init ''Classes'' (Plain 10) None)), st1)"
proof -
  from example_env_promise obtain st1 where
    run: "promise (Suc 0) example_env initial_state (NotAnAddress (Plain 10)) ''Classes'' None
        = Some (Inr (Some (Promise_init ''Classes'' (Plain 10) None)), st1)" ..
  have g: "graph uncovering_env = graph example_env"
    by (simp add: uncovering_env_def example_env_def)
  have r: "resolve_subject (graph example_env) (NotAnAddress (Plain 10)) = Plain 10"
    by (simp add: resolve_subject_def)
  note t = promise_idempotent [OF run, where env' = uncovering_env and st_later = st1 and fuel' = 0]
  note t1 = t [THEN conjunct1]
  note t3 = t [THEN conjunct2, THEN conjunct2, THEN conjunct1, unfolded r]
  from t3 g t1
  have "promise 0 uncovering_env st1 (NotAnAddress (Plain 10)) ''Classes'' None
         = Some (Inr (Some (Promise_init ''Classes'' (Plain 10) None)), st1)"
    by blast
  with t1 have "promised (product_mapper st1) (Promise_init ''Classes'' (Plain 10) None) \<noteq> None
     \<and> promise 0 uncovering_env st1 (NotAnAddress (Plain 10)) ''Classes'' None
         = Some (Inr (Some (Promise_init ''Classes'' (Plain 10) None)), st1)"
    by blast
  with run show ?thesis by blast
qed

section \<open>The walk of the execution graph\<close>

lemma plan_keys_Nil: "plan_keys [] = {}"
  by (simp add: plan_keys_def)

lemma plan_keys_Cons: "plan_keys (y # ys) = insert (Plan_key (snd y)) (plan_keys ys)"
  by (simp add: plan_keys_def)

lemma plan_keys_append: "plan_keys (xs @ ys) = plan_keys xs \<union> plan_keys ys"
  by (auto simp: plan_keys_def)

lemma plan_keys_image: "plan_keys ys = (\<lambda>y. Plan_key (snd y)) ` set ys"
  by (auto simp: plan_keys_def)

lemma on_cycle_mono: "R \<subseteq> R' \<Longrightarrow> on_cycle m R dep plan \<Longrightarrow> on_cycle m R' dep plan"
  unfolding on_cycle_def by blast

lemma on_cycle_self:
  "Plan_key dep = Plan_key P \<Longrightarrow> (P, plan) \<in> (fulfils m)\<^sup>* \<Longrightarrow> on_cycle m {P} dep plan"
  unfolding on_cycle_def by auto

lemma on_cycle_enter:
  assumes "\<forall>r \<in> R. (P, r) \<in> (fulfils m)\<^sup>*" and "on_cycle m R dep plan"
  shows "on_cycle m {P} dep plan"
proof -
  from assms(2) obtain d r where d: "Plan_key d = Plan_key dep" "r \<in> R"
    "(r, d) \<in> (fulfils m)\<^sup>*" "(d, plan) \<in> (fulfils m)\<^sup>*"
    unfolding on_cycle_def by blast
  from assms(1) d(2) have "(P, r) \<in> (fulfils m)\<^sup>*" by blast
  from this d(3) have "(P, d) \<in> (fulfils m)\<^sup>*" by (rule rtrancl_trans)
  with d(1,4) show ?thesis unfolding on_cycle_def by blast
qed

lemma dependencies_first_mono:
  "R \<subseteq> R' \<Longrightarrow> dependencies_first m R seen ys \<Longrightarrow> dependencies_first m R' seen ys"
proof (induction ys arbitrary: seen)
  case Nil
  show ?case by simp
next
  case (Cons y ys)
  from Cons.prems(2) have a: "\<forall>pr \<in> set (promises (snd y)). \<forall>dep. promised m pr = Some dep \<longrightarrow>
          Plan_key dep \<in> seen \<or> on_cycle m R dep (snd y)"
    and b: "dependencies_first m R (insert (Plan_key (snd y)) seen) ys" by simp_all
  from a on_cycle_mono [OF Cons.prems(1)]
  have "\<forall>pr \<in> set (promises (snd y)). \<forall>dep. promised m pr = Some dep \<longrightarrow>
          Plan_key dep \<in> seen \<or> on_cycle m R' dep (snd y)" by blast
  moreover from Cons.IH [OF Cons.prems(1) b]
  have "dependencies_first m R' (insert (Plan_key (snd y)) seen) ys" .
  ultimately show ?case by simp
qed

lemma dependencies_first_append:
  "dependencies_first m R seen (xs @ ys)
   = (dependencies_first m R seen xs \<and> dependencies_first m R (seen \<union> plan_keys xs) ys)"
proof (induction xs arbitrary: seen)
  case Nil
  show ?case by (simp add: plan_keys_Nil)
next
  case (Cons x xs)
  have "insert (Plan_key (snd x)) seen \<union> plan_keys xs = seen \<union> plan_keys (x # xs)"
    by (simp add: plan_keys_Cons)
  with Cons.IH [of "insert (Plan_key (snd x)) seen"] show ?case by auto
qed

lemma dependencies_first_enter:
  assumes "\<forall>r \<in> R. (P, r) \<in> (fulfils m)\<^sup>*"
  shows "dependencies_first m R (insert (Plan_key P) seen) ys
     \<Longrightarrow> \<forall>y \<in> set ys. (P, snd y) \<in> (fulfils m)\<^sup>*
     \<Longrightarrow> dependencies_first m {P} seen ys"
proof (induction ys arbitrary: seen)
  case Nil
  show ?case by simp
next
  case (Cons y ys)
  from Cons.prems(1) have a: "\<forall>pr \<in> set (promises (snd y)). \<forall>dep. promised m pr = Some dep \<longrightarrow>
          Plan_key dep \<in> insert (Plan_key P) seen \<or> on_cycle m R dep (snd y)"
    and b: "dependencies_first m R (insert (Plan_key (snd y)) (insert (Plan_key P) seen)) ys"
    by simp_all
  from Cons.prems(2) have py: "(P, snd y) \<in> (fulfils m)\<^sup>*"
    and rest: "\<forall>y \<in> set ys. (P, snd y) \<in> (fulfils m)\<^sup>*" by simp_all
  have 1: "\<forall>pr \<in> set (promises (snd y)). \<forall>dep. promised m pr = Some dep \<longrightarrow>
          Plan_key dep \<in> seen \<or> on_cycle m {P} dep (snd y)"
  proof (intro ballI allI impI)
    fix pr dep
    assume "pr \<in> set (promises (snd y))" "promised m pr = Some dep"
    with a have "Plan_key dep \<in> insert (Plan_key P) seen \<or> on_cycle m R dep (snd y)" by blast
    then consider "Plan_key dep \<in> seen" | "Plan_key dep = Plan_key P" | "on_cycle m R dep (snd y)"
      by blast
    then show "Plan_key dep \<in> seen \<or> on_cycle m {P} dep (snd y)"
    proof cases
      case 1
      then show ?thesis by simp
    next
      case 2
      from on_cycle_self [OF 2 py] show ?thesis by simp
    next
      case 3
      from on_cycle_enter [OF assms 3] show ?thesis by simp
    qed
  qed
  from b have "dependencies_first m R (insert (Plan_key P) (insert (Plan_key (snd y)) seen)) ys"
    by (simp add: insert_commute)
  from Cons.IH [OF this rest]
  have "dependencies_first m {P} (insert (Plan_key (snd y)) seen) ys" .
  with 1 show ?case by simp
qed

lemma yields_ok_Nil: "yields_ok m R seen []"
  by (simp add: yields_ok_def plan_keys_Nil)

lemma yields_ok_mono:
  assumes "R \<subseteq> R'" and "yields_ok m R seen ys"
  shows "yields_ok m R' seen ys"
proof -
  from assms(2) have "\<forall>y \<in> set ys. \<exists>r \<in> R. (r, snd y) \<in> (fulfils m)\<^sup>*"
    and d: "dependencies_first m R seen ys"
    unfolding yields_ok_def by blast+
  with assms(1) have "\<forall>y \<in> set ys. \<exists>r \<in> R'. (r, snd y) \<in> (fulfils m)\<^sup>*" by blast
  moreover note dependencies_first_mono [OF assms(1) d]
  ultimately show ?thesis using assms(2) unfolding yields_ok_def by blast
qed

lemma yields_ok_append:
  assumes x: "yields_ok m R seen xs" and y: "yields_ok m R (seen \<union> plan_keys xs) ys"
  shows "yields_ok m R seen (xs @ ys)"
proof -
  from x have x1: "plan_keys xs \<inter> seen = {}"
    and x2: "distinct (map (\<lambda>y. Plan_key (snd y)) xs)"
    and x3: "\<forall>y \<in> set xs. promised m (fst y) = Some (snd y)"
    and x4: "\<forall>y \<in> set xs. \<exists>r \<in> R. (r, snd y) \<in> (fulfils m)\<^sup>*"
    and x5: "\<forall>y \<in> set xs. \<forall>pr \<in> set (promises (snd y)).
            \<exists>dep. promised m pr = Some dep \<and> Plan_key dep \<in> seen \<union> plan_keys xs"
    and x6: "dependencies_first m R seen xs"
    unfolding yields_ok_def by blast+
  from y have y1: "plan_keys ys \<inter> (seen \<union> plan_keys xs) = {}"
    and y2: "distinct (map (\<lambda>y. Plan_key (snd y)) ys)"
    and y3: "\<forall>y \<in> set ys. promised m (fst y) = Some (snd y)"
    and y4: "\<forall>y \<in> set ys. \<exists>r \<in> R. (r, snd y) \<in> (fulfils m)\<^sup>*"
    and y5: "\<forall>y \<in> set ys. \<forall>pr \<in> set (promises (snd y)).
            \<exists>dep. promised m pr = Some dep \<and> Plan_key dep \<in> (seen \<union> plan_keys xs) \<union> plan_keys ys"
    and y6: "dependencies_first m R (seen \<union> plan_keys xs) ys"
    unfolding yields_ok_def by blast+
  have 1: "plan_keys (xs @ ys) \<inter> seen = {}"
    using x1 y1 by (auto simp: plan_keys_append)
  have "(\<lambda>y. Plan_key (snd y)) ` set xs \<inter> (\<lambda>y. Plan_key (snd y)) ` set ys = {}"
    using y1 unfolding plan_keys_image by blast
  with x2 y2 have 2: "distinct (map (\<lambda>y. Plan_key (snd y)) (xs @ ys))" by simp
  from x3 y3 have 3: "\<forall>y \<in> set (xs @ ys). promised m (fst y) = Some (snd y)" by auto
  from x4 y4 have 4: "\<forall>y \<in> set (xs @ ys). \<exists>r \<in> R. (r, snd y) \<in> (fulfils m)\<^sup>*" by auto
  have 5: "\<forall>y \<in> set (xs @ ys). \<forall>pr \<in> set (promises (snd y)).
            \<exists>dep. promised m pr = Some dep \<and> Plan_key dep \<in> seen \<union> plan_keys (xs @ ys)"
  proof (intro ballI)
    fix y pr
    assume yy: "y \<in> set (xs @ ys)" and pr: "pr \<in> set (promises (snd y))"
    from yy have "y \<in> set xs \<or> y \<in> set ys" by simp
    then show "\<exists>dep. promised m pr = Some dep \<and> Plan_key dep \<in> seen \<union> plan_keys (xs @ ys)"
    proof
      assume "y \<in> set xs"
      with x5 pr obtain dep where "promised m pr = Some dep"
        "Plan_key dep \<in> seen \<union> plan_keys xs" by blast
      then show ?thesis by (auto simp: plan_keys_append)
    next
      assume "y \<in> set ys"
      with y5 pr obtain dep where "promised m pr = Some dep"
        "Plan_key dep \<in> (seen \<union> plan_keys xs) \<union> plan_keys ys" by blast
      then show ?thesis by (auto simp: plan_keys_append)
    qed
  qed
  from x6 y6 have 6: "dependencies_first m R seen (xs @ ys)"
    by (simp add: dependencies_first_append)
  from 1 2 3 4 5 6 show ?thesis unfolding yields_ok_def by blast
qed

lemma yields_ok_snoc:
  assumes new: "Plan_key P \<notin> seen"
    and pr0: "promised m pr0 = Some P"
    and ys: "yields_ok m (plans_of m (promises P)) (insert (Plan_key P) seen) ys"
    and deps: "\<forall>pr \<in> set (promises P).
        \<exists>dep. promised m pr = Some dep \<and> Plan_key dep \<in> insert (Plan_key P) seen \<union> plan_keys ys"
  shows "yields_ok m {P} seen (ys @ [(pr0, P)])"
proof -
  let ?R = "plans_of m (promises P)"
  from ys have y1: "plan_keys ys \<inter> insert (Plan_key P) seen = {}"
    and y2: "distinct (map (\<lambda>y. Plan_key (snd y)) ys)"
    and y3: "\<forall>y \<in> set ys. promised m (fst y) = Some (snd y)"
    and y4: "\<forall>y \<in> set ys. \<exists>r \<in> ?R. (r, snd y) \<in> (fulfils m)\<^sup>*"
    and y5: "\<forall>y \<in> set ys. \<forall>pr \<in> set (promises (snd y)).
            \<exists>dep. promised m pr = Some dep
              \<and> Plan_key dep \<in> insert (Plan_key P) seen \<union> plan_keys ys"
    and y6: "dependencies_first m ?R (insert (Plan_key P) seen) ys"
    unfolding yields_ok_def by blast+
  have R: "\<forall>r \<in> ?R. (P, r) \<in> (fulfils m)\<^sup>*"
    unfolding plans_of_def fulfils_def by auto
  have reach: "\<forall>y \<in> set ys. (P, snd y) \<in> (fulfils m)\<^sup>*"
  proof
    fix y assume "y \<in> set ys"
    with y4 obtain r where "r \<in> ?R" "(r, snd y) \<in> (fulfils m)\<^sup>*" by blast
    with R show "(P, snd y) \<in> (fulfils m)\<^sup>*" by (blast intro: rtrancl_trans)
  qed
  have 1: "plan_keys (ys @ [(pr0, P)]) \<inter> seen = {}"
    using y1 new by (auto simp: plan_keys_append plan_keys_Cons plan_keys_Nil)
  have "Plan_key P \<notin> (\<lambda>y. Plan_key (snd y)) ` set ys"
    using y1 unfolding plan_keys_image by blast
  with y2 have 2: "distinct (map (\<lambda>y. Plan_key (snd y)) (ys @ [(pr0, P)]))" by simp
  from y3 pr0 have 3: "\<forall>y \<in> set (ys @ [(pr0, P)]). promised m (fst y) = Some (snd y)" by auto
  from reach have 4: "\<forall>y \<in> set (ys @ [(pr0, P)]). \<exists>r \<in> {P}. (r, snd y) \<in> (fulfils m)\<^sup>*"
    by auto
  have k: "insert (Plan_key P) seen \<union> plan_keys ys = seen \<union> plan_keys (ys @ [(pr0, P)])"
    by (auto simp: plan_keys_append plan_keys_Cons plan_keys_Nil)
  from y5 deps
  have 5: "\<forall>y \<in> set (ys @ [(pr0, P)]). \<forall>pr \<in> set (promises (snd y)).
            \<exists>dep. promised m pr = Some dep
               \<and> Plan_key dep \<in> seen \<union> plan_keys (ys @ [(pr0, P)])"
    unfolding k by auto
  have last: "\<forall>pr \<in> set (promises P). \<forall>dep. promised m pr = Some dep \<longrightarrow>
          Plan_key dep \<in> seen \<union> plan_keys ys \<or> on_cycle m {P} dep P"
  proof (intro ballI allI impI)
    fix pr dep
    assume "pr \<in> set (promises P)" "promised m pr = Some dep"
    with deps have "Plan_key dep \<in> insert (Plan_key P) seen \<union> plan_keys ys" by fastforce
    then consider "Plan_key dep \<in> seen \<union> plan_keys ys" | "Plan_key dep = Plan_key P" by blast
    then show "Plan_key dep \<in> seen \<union> plan_keys ys \<or> on_cycle m {P} dep P"
    proof cases
      case 1
      then show ?thesis by simp
    next
      case 2
      from on_cycle_self [OF 2, of P m] show ?thesis by simp
    qed
  qed
  from dependencies_first_enter [OF R y6 reach] last
  have 6: "dependencies_first m {P} seen (ys @ [(pr0, P)])"
    by (simp add: dependencies_first_append)
  from 1 2 3 4 5 6 show ?thesis unfolding yields_ok_def by blast
qed

lemma post_refl: "post m R st st"
  unfolding post_def by (rule exI [of _ "[]"]) (simp add: yields_ok_Nil plan_keys_Nil)

lemma post_seen_mono: "post m R st st' \<Longrightarrow> fst st \<subseteq> fst st'"
  unfolding post_def by auto

lemma post_trans:
  assumes "post m R st st1" and "post m R' st1 st2"
  shows "post m (R \<union> R') st st2"
proof -
  from assms(1) obtain xs where xs: "snd st1 = snd st @ xs" "fst st1 = fst st \<union> plan_keys xs"
    "yields_ok m R (fst st) xs" unfolding post_def by blast
  from assms(2) obtain ys where ys: "snd st2 = snd st1 @ ys" "fst st2 = fst st1 \<union> plan_keys ys"
    "yields_ok m R' (fst st1) ys" unfolding post_def by blast
  have a: "yields_ok m (R \<union> R') (fst st) xs"
    by (rule yields_ok_mono [OF _ xs(3)]) simp
  have "yields_ok m (R \<union> R') (fst st1) ys"
    by (rule yields_ok_mono [OF _ ys(3)]) simp
  then have b: "yields_ok m (R \<union> R') (fst st \<union> plan_keys xs) ys"
    by (simp only: xs(2))
  have "snd st2 = snd st @ (xs @ ys)" by (simp add: xs(1) ys(1))
  moreover have "fst st2 = fst st \<union> plan_keys (xs @ ys)"
    by (simp add: xs(2) ys(2) plan_keys_append Un_assoc)
  moreover note yields_ok_append [OF a b]
  ultimately show ?thesis unfolding post_def by blast
qed

lemma post_snoc:
  assumes new: "Plan_key P \<notin> fst st"
    and pr0: "promised m pr0 = Some P"
    and inner: "post m (plans_of m (promises P)) (insert (Plan_key P) (fst st), snd st) st'"
    and deps: "\<forall>pr \<in> set (promises P). \<exists>dep. promised m pr = Some dep \<and> Plan_key dep \<in> fst st'"
  shows "post m {P} st (fst st', snd st' @ [(pr0, P)])"
proof -
  from inner obtain ys where ys: "snd st' = snd st @ ys"
    "fst st' = insert (Plan_key P) (fst st) \<union> plan_keys ys"
    "yields_ok m (plans_of m (promises P)) (insert (Plan_key P) (fst st)) ys"
    unfolding post_def by auto
  from deps have d: "\<forall>pr \<in> set (promises P). \<exists>dep. promised m pr = Some dep
      \<and> Plan_key dep \<in> insert (Plan_key P) (fst st) \<union> plan_keys ys"
    by (simp only: ys(2))
  note y = yields_ok_snoc [OF new pr0 ys(3) d]
  have "snd st' @ [(pr0, P)] = snd st @ (ys @ [(pr0, P)])" by (simp add: ys(1))
  moreover have "fst st' = fst st \<union> plan_keys (ys @ [(pr0, P)])"
    by (auto simp: ys(2) plan_keys_append plan_keys_Cons plan_keys_Nil)
  ultimately show ?thesis using y unfolding post_def by auto
qed

lemma plans_of_Cons:
  "promised m pr = Some P \<Longrightarrow> plans_of m (pr # prs) = {P} \<union> plans_of m prs"
  unfolding plans_of_def by auto

lemma walk_promises_post:
  assumes "\<And>pr st res. pr \<in> set prs \<Longrightarrow> rec pr st = Some res \<Longrightarrow>
             \<exists>P. promised m pr = Some P \<and> fst res = Inr () \<and> post m {P} st (snd res)
                 \<and> Plan_key P \<in> fst (snd res)"
    and "walk_promises rec prs st = Some res"
  shows "fst res = Inr () \<and> post m (plans_of m prs) st (snd res)
         \<and> (\<forall>pr \<in> set prs. \<exists>dep. promised m pr = Some dep \<and> Plan_key dep \<in> fst (snd res))"
  using assms
proof (induction prs arbitrary: st)
  case Nil
  from Nil.prems(2) have "res = (Inr (), st)" by simp
  then show ?case by (simp add: post_refl)
next
  case (Cons pr prs)
  from Cons.prems(2) obtain r1 where r1: "rec pr st = Some r1"
    by (cases "rec pr st") auto
  from Cons.prems(1) [OF _ r1] obtain P where P: "promised m pr = Some P" "fst r1 = Inr ()"
    "post m {P} st (snd r1)" "Plan_key P \<in> fst (snd r1)" by auto
  from P(2) have r1': "r1 = (Inr (), snd r1)" by (cases r1) auto
  from Cons.prems(2) r1 r1' have rest: "walk_promises rec prs (snd r1) = Some res"
    by (cases r1) auto
  have "\<And>pr st res. pr \<in> set prs \<Longrightarrow> rec pr st = Some res \<Longrightarrow>
             \<exists>P. promised m pr = Some P \<and> fst res = Inr () \<and> post m {P} st (snd res)
                 \<and> Plan_key P \<in> fst (snd res)"
    using Cons.prems(1) by simp
  from Cons.IH [OF this rest]
  have ih: "fst res = Inr ()" "post m (plans_of m prs) (snd r1) (snd res)"
    "\<forall>pr \<in> set prs. \<exists>dep. promised m pr = Some dep \<and> Plan_key dep \<in> fst (snd res)"
    by blast+
  from post_trans [OF P(3) ih(2)] have "post m (plans_of m (pr # prs)) st (snd res)"
    by (simp only: plans_of_Cons [OF P(1)])
  moreover from post_seen_mono [OF ih(2)] P(4) have "Plan_key P \<in> fst (snd res)" by blast
  ultimately show ?case using ih(1,3) P(1) by simp
qed

lemma walk_plan_post:
  assumes "\<forall>pl. (P, pl) \<in> (fulfils m)\<^sup>* \<longrightarrow> (\<forall>pr \<in> set (promises pl). promised m pr \<noteq> None)"
    and "promised m pr0 = Some P"
    and "walk_plan fuel m pr0 st = Some res"
  shows "fst res = Inr () \<and> post m {P} st (snd res) \<and> Plan_key P \<in> fst (snd res)"
  using assms
proof (induction fuel arbitrary: P pr0 st res)
  case 0
  from "0.prems"(2,3) have "Plan_key P \<in> fst st \<and> res = (Inr (), st)"
    by (auto split: if_splits)
  then show ?case by (simp add: post_refl)
next
  case (Suc fuel)
  show ?case
  proof (cases "Plan_key P \<in> fst st")
    case True
    with Suc.prems(2,3) have "res = (Inr (), st)" by simp
    with True show ?thesis by (simp add: post_refl)
  next
    case False
    let ?st = "(insert (Plan_key P) (fst st), snd st)"
    from False Suc.prems(2,3) obtain r1 where
      r1: "walk_promises (walk_plan fuel m) (promises P) ?st = Some r1"
      by (cases "walk_promises (walk_plan fuel m) (promises P) ?st") auto
    have rec: "\<exists>P'. promised m pr = Some P' \<and> fst res' = Inr () \<and> post m {P'} st' (snd res')
                 \<and> Plan_key P' \<in> fst (snd res')"
      if "pr \<in> set (promises P)" "walk_plan fuel m pr st' = Some res'" for pr st' res'
    proof -
      from Suc.prems(1) that(1) obtain P' where P': "promised m pr = Some P'" by blast
      with that(1) have e: "(P, P') \<in> fulfils m" unfolding fulfils_def by auto
      have "\<forall>pl. (P', pl) \<in> (fulfils m)\<^sup>* \<longrightarrow>
              (\<forall>pr \<in> set (promises pl). promised m pr \<noteq> None)"
      proof (intro allI impI)
        fix pl assume "(P', pl) \<in> (fulfils m)\<^sup>*"
        with e have "(P, pl) \<in> (fulfils m)\<^sup>*" by (rule converse_rtrancl_into_rtrancl)
        with Suc.prems(1) show "\<forall>pr \<in> set (promises pl). promised m pr \<noteq> None" by blast
      qed
      from Suc.IH [OF this P' that(2)] P' show ?thesis by blast
    qed
    from walk_promises_post [where rec = "walk_plan fuel m" and m = m, OF rec r1]
    have p: "fst r1 = Inr ()" "post m (plans_of m (promises P)) ?st (snd r1)"
      "\<forall>pr \<in> set (promises P). \<exists>dep. promised m pr = Some dep \<and> Plan_key dep \<in> fst (snd r1)"
      by blast+
    from p(1) have r1': "r1 = (Inr (), snd r1)" by (cases r1) auto
    from False Suc.prems(2,3) r1 r1'
    have res: "res = (Inr (), (fst (snd r1), snd (snd r1) @ [(pr0, P)]))"
      by (cases r1) auto
    from post_snoc [OF False Suc.prems(2) p(2,3)]
    have "post m {P} st (fst (snd r1), snd (snd r1) @ [(pr0, P)])" .
    moreover from post_seen_mono [OF p(2)] have "Plan_key P \<in> fst (snd r1)" by auto
    ultimately show ?thesis by (simp add: res)
  qed
qed

lemma card_unseen_mono:
  "finite X \<Longrightarrow> seen \<subseteq> seen' \<Longrightarrow> card (X - seen') \<le> card (X - seen)"
  by (rule card_mono) auto

lemma card_unseen_insert:
  "finite X \<Longrightarrow> k \<in> X \<Longrightarrow> k \<notin> seen \<Longrightarrow> card (X - seen) \<le> Suc fuel
     \<Longrightarrow> card (X - insert k seen) \<le> fuel"
proof -
  assume a: "finite X" "k \<in> X" "k \<notin> seen" "card (X - seen) \<le> Suc fuel"
  have "X - insert k seen \<subset> X - seen" using a(2,3) by blast
  with a(1) have "card (X - insert k seen) < card (X - seen)"
    by (intro psubset_card_mono) auto
  with a(4) show ?thesis by simp
qed

lemma walk_promises_returns:
  assumes ret: "\<And>pr st. pr \<in> set prs \<Longrightarrow> seen \<subseteq> fst st \<Longrightarrow> \<exists>res. rec pr st = Some res"
    and mono: "\<And>pr st res. pr \<in> set prs \<Longrightarrow> rec pr st = Some res \<Longrightarrow>
                 fst res = Inr () \<and> fst st \<subseteq> fst (snd res)"
    and start: "seen \<subseteq> fst st0"
  shows "\<exists>res. walk_promises rec prs st0 = Some res"
  using assms
proof (induction prs arbitrary: st0)
  case Nil
  show ?case by simp
next
  case (Cons pr prs)
  have mem: "pr \<in> set (pr # prs)" by simp
  from Cons.prems(1) [OF mem Cons.prems(3)] obtain r1 where r1: "rec pr st0 = Some r1" by blast
  from Cons.prems(2) [OF mem r1] have m1: "fst r1 = Inr ()" "fst st0 \<subseteq> fst (snd r1)" by blast+
  from m1(1) have r1': "r1 = (Inr (), snd r1)" by (cases r1) auto
  from m1(2) Cons.prems(3) have s: "seen \<subseteq> fst (snd r1)" by blast
  have a: "\<exists>res. rec pr' st = Some res" if "pr' \<in> set prs" "seen \<subseteq> fst st" for pr' st
    using Cons.prems(1) [of pr' st] that by simp
  have b: "fst res = Inr () \<and> fst st \<subseteq> fst (snd res)"
    if "pr' \<in> set prs" "rec pr' st = Some res" for pr' st res
    using Cons.prems(2) [of pr' st res] that by simp
  have "\<exists>res. walk_promises rec prs (snd r1) = Some res"
    apply (rule Cons.IH)
      apply (rule a; assumption)
     apply (rule b; assumption)
    apply (rule s)
    done
  then obtain res where res: "walk_promises rec prs (snd r1) = Some res" by blast
  from r1 r1' have "walk_promises rec (pr # prs) st0 = walk_promises rec prs (snd r1)"
    by (cases r1) simp
  with res have "walk_promises rec (pr # prs) st0 = Some res" by (simp only:)
  then show ?case by (rule exI)
qed

lemma resolve_step:
  assumes "\<forall>pl. (P, pl) \<in> (fulfils m)\<^sup>* \<longrightarrow> (\<forall>pr \<in> set (promises pl). promised m pr \<noteq> None)"
    and "pr \<in> set (promises P)"
  shows "\<exists>P'. promised m pr = Some P'
          \<and> (\<forall>pl. (P', pl) \<in> (fulfils m)\<^sup>* \<longrightarrow> (\<forall>pr \<in> set (promises pl). promised m pr \<noteq> None))"
proof -
  from assms obtain P' where P': "promised m pr = Some P'" by blast
  with assms(2) have e: "(P, P') \<in> fulfils m" unfolding fulfils_def by auto
  have "\<forall>pl. (P', pl) \<in> (fulfils m)\<^sup>* \<longrightarrow> (\<forall>pr \<in> set (promises pl). promised m pr \<noteq> None)"
  proof (intro allI impI)
    fix pl assume "(P', pl) \<in> (fulfils m)\<^sup>*"
    with e have "(P, pl) \<in> (fulfils m)\<^sup>*" by (rule converse_rtrancl_into_rtrancl)
    with assms(1) show "\<forall>pr \<in> set (promises pl). promised m pr \<noteq> None" by blast
  qed
  with P' show ?thesis by blast
qed

lemma promised_ran: "promised m pr = Some P \<Longrightarrow> P \<in> ran m"
  unfolding promised_def ran_def by blast

lemma walk_plan_returns:
  assumes fin: "finite (Plan_key ` ran m)"
  shows "\<forall>pl. (P, pl) \<in> (fulfils m)\<^sup>* \<longrightarrow> (\<forall>pr \<in> set (promises pl). promised m pr \<noteq> None)
     \<Longrightarrow> promised m pr0 = Some P
     \<Longrightarrow> card (Plan_key ` ran m - fst st) \<le> fuel
     \<Longrightarrow> \<exists>res. walk_plan fuel m pr0 st = Some res"
proof (induction fuel arbitrary: P pr0 st)
  case 0
  from "0.prems"(3) fin have "Plan_key ` ran m - fst st = {}" by simp
  with promised_ran [OF "0.prems"(2)] have "Plan_key P \<in> fst st" by blast
  with "0.prems"(2) show ?case by simp
next
  case (Suc fuel)
  show ?case
  proof (cases "Plan_key P \<in> fst st")
    case True
    with Suc.prems(2) show ?thesis by simp
  next
    case False
    let ?st = "(insert (Plan_key P) (fst st), snd st)"
    from promised_ran [OF Suc.prems(2)] have "Plan_key P \<in> Plan_key ` ran m" by blast
    from card_unseen_insert [OF fin this False Suc.prems(3)]
    have c: "card (Plan_key ` ran m - fst ?st) \<le> fuel" by simp
    have ret: "\<exists>res. walk_plan fuel m pr st' = Some res"
      if "pr \<in> set (promises P)" "fst ?st \<subseteq> fst st'" for pr st'
    proof -
      from resolve_step [OF Suc.prems(1) that(1)] obtain P' where P': "promised m pr = Some P'"
        "\<forall>pl. (P', pl) \<in> (fulfils m)\<^sup>* \<longrightarrow> (\<forall>pr \<in> set (promises pl). promised m pr \<noteq> None)"
        by blast
      from card_unseen_mono [OF fin that(2)] c
      have "card (Plan_key ` ran m - fst st') \<le> fuel" by simp
      from Suc.IH [OF P'(2,1) this] show ?thesis .
    qed
    have mono: "fst res = Inr () \<and> fst st' \<subseteq> fst (snd res)"
      if "pr \<in> set (promises P)" "walk_plan fuel m pr st' = Some res" for pr st' res
    proof -
      from resolve_step [OF Suc.prems(1) that(1)] obtain P' where P': "promised m pr = Some P'"
        "\<forall>pl. (P', pl) \<in> (fulfils m)\<^sup>* \<longrightarrow> (\<forall>pr \<in> set (promises pl). promised m pr \<noteq> None)"
        by blast
      from walk_plan_post [OF P'(2,1) that(2)] show ?thesis
        by (blast dest: post_seen_mono)
    qed
    have "\<exists>r1. walk_promises (walk_plan fuel m) (promises P) ?st = Some r1"
      apply (rule walk_promises_returns [where seen = "fst ?st"])
        apply (rule ret; assumption)
       apply (rule mono; assumption)
      apply simp
      done
    then obtain r1 where r1: "walk_promises (walk_plan fuel m) (promises P) ?st = Some r1"
      by blast
    obtain e st1 where "r1 = (e, st1)" by (cases r1)
    with r1 False Suc.prems(2) show ?thesis by (cases e) auto
  qed
qed

lemma image_set_foldl_set_add:
  "key ` set (foldl (set_add key) acc xs) = key ` (set acc \<union> set xs)"
  by (induction xs arbitrary: acc) (auto simp: set_add_def)

lemma image_set_pyset: "key ` set (pyset key xs) = key ` set xs"
  by (simp add: pyset_def image_set_foldl_set_add)

lemma hkeys_hashable: "hkeys (hashable v) = Promise_key ` set (iter_promises v)"
proof (induction v)
  case PNone
  show ?case by (simp add: hashable.simps [of PNone] iter_promises.simps [of PNone] is_iterable_def)
next
  case (PStr s)
  show ?case
    by (simp add: hashable.simps [of "PStr s"] iter_promises.simps [of "PStr s"] is_iterable_def)
next
  case (PObj x)
  show ?case
  proof (cases x)
    case (Plain y)
    show ?thesis
      unfolding Plain
      by (simp add: hashable.simps [of "PObj (Plain y)"] iter_promises.simps [of "PObj (Plain y)"]
          is_iterable_def)
  next
    case (Wrapped sb)
    show ?thesis
      unfolding Wrapped
      by (simp add: hashable.simps [of "PObj (Wrapped sb)"]
          iter_promises.simps [of "PObj (Wrapped sb)"] is_iterable_def)
  qed
next
  case (PType t)
  show ?case
    by (simp add: hashable.simps [of "PType t"] iter_promises.simps [of "PType t"] is_iterable_def)
next
  case (PPromise p)
  show ?case
    by (simp add: hashable.simps [of "PPromise p"] iter_promises.simps [of "PPromise p"]
        is_iterable_def)
next
  case (PDict kvs)
  have ih: "hkeys (hashable (snd kv)) = Promise_key ` set (iter_promises (snd kv))"
    if "kv \<in> set kvs" for kv
    using PDict [OF that, of "snd kv"] by (simp add: snds.intros)
  have "hkeys (hashable (PDict kvs)) = (\<Union>kv \<in> set kvs. hkeys (hashable (snd kv)))"
    by (simp add: hashable.simps [of "PDict kvs"])
  also have "\<dots> = (\<Union>kv \<in> set kvs. Promise_key ` set (iter_promises (snd kv)))"
    using ih by simp
  also have "\<dots> = Promise_key ` set (iter_promises (PDict kvs))"
    by (auto simp: iter_promises.simps [of "PDict kvs"])
  finally show ?case .
next
  case (PList xs)
  have "hkeys (hashable (PList xs)) = (\<Union>x \<in> set xs. hkeys (hashable x))"
    by (simp add: hashable.simps [of "PList xs"] is_iterable_def)
  also have "\<dots> = (\<Union>x \<in> set xs. Promise_key ` set (iter_promises x))"
    using PList by simp
  also have "\<dots> = Promise_key ` set (iter_promises (PList xs))"
    by (auto simp: iter_promises.simps [of "PList xs"] is_iterable_def)
  finally show ?case .
next
  case (PTuple xs)
  have "hkeys (hashable (PTuple xs)) = (\<Union>x \<in> set xs. hkeys (hashable x))"
    by (simp add: hashable.simps [of "PTuple xs"] is_iterable_def)
  also have "\<dots> = (\<Union>x \<in> set xs. Promise_key ` set (iter_promises x))"
    using PTuple by simp
  also have "\<dots> = Promise_key ` set (iter_promises (PTuple xs))"
    by (auto simp: iter_promises.simps [of "PTuple xs"] is_iterable_def)
  finally show ?case .
qed

lemma promises_keys:
  "Promise_key ` set (promises plan) = hkeys (hashable (PDict (inputs plan)))"
proof -
  have "Promise_key ` set (promises plan)
        = (\<Union>kv \<in> set (inputs plan). Promise_key ` set (iter_promises (snd kv)))"
    by (auto simp: promises_def image_set_pyset)
  also have "\<dots> = Promise_key ` set (iter_promises (PDict (inputs plan)))"
    by (auto simp: iter_promises.simps [of "PDict (inputs plan)"])
  finally show ?thesis by (simp add: hkeys_hashable)
qed

lemma equal_plans_promise_alike:
  "Plan_key a = Plan_key b \<Longrightarrow> Promise_key ` set (promises a) = Promise_key ` set (promises b)"
  by (simp add: promises_keys Plan_key_def)

lemma fulfils_key:
  assumes "Plan_key a = Plan_key b" and "(a, dep) \<in> fulfils m"
  shows "(b, dep) \<in> fulfils m"
proof -
  from assms(2) obtain pr where pr: "pr \<in> set (promises a)" "promised m pr = Some dep"
    unfolding fulfils_def by auto
  from pr(1) have "Promise_key pr \<in> Promise_key ` set (promises a)" by simp
  with equal_plans_promise_alike [OF assms(1)]
  obtain pr' where pr': "pr' \<in> set (promises b)" "Promise_key pr' = Promise_key pr" by auto
  from pr(2) pr'(2) have "promised m pr' = Some dep" by (simp add: promised_def)
  with pr'(1) show ?thesis unfolding fulfils_def by auto
qed

lemma reachable_plans_alt:
  "reachable_plans g = (fulfils (graph_product_mapper g))\<^sup>* `` plans_of (graph_product_mapper g) (root_promises g)"
  by (simp add: reachable_plans_def plans_of_def)

lemma reachable_plans_closed:
  "a \<in> reachable_plans g \<Longrightarrow> (a, b) \<in> (fulfils (graph_product_mapper g))\<^sup>* \<Longrightarrow> b \<in> reachable_plans g"
  unfolding reachable_plans_def by (auto intro: rtrancl_trans)

lemma reachable_plan_edges:
  assumes "(a, b) \<in> (fulfils (graph_product_mapper g))\<^sup>*" and "a \<in> reachable_plans g"
  shows "(a, b) \<in> (plan_edges g)\<^sup>*"
  using assms
proof (induction rule: rtrancl_induct)
  case base
  show ?case by simp
next
  case (step y z)
  from step.prems step.hyps(1) have "y \<in> reachable_plans g" by (rule reachable_plans_closed)
  with step.hyps(2) have "(y, z) \<in> plan_edges g" by (simp add: plan_edges_def)
  with step.IH [OF step.prems] show ?case by (rule rtrancl_into_rtrancl)
qed

lemma on_cycle_not_acyclic:
  assumes cyc: "on_cycle (graph_product_mapper g) (plans_of (graph_product_mapper g) (root_promises g)) dep plan"
    and plan: "plan \<in> reachable_plans g"
    and edge: "(plan, dep) \<in> fulfils (graph_product_mapper g)"
  shows "\<not> acyclic (plan_edges g)"
proof -
  let ?m = "graph_product_mapper g"
  from cyc obtain d where d: "Plan_key d = Plan_key dep" "d \<in> reachable_plans g"
    "(d, plan) \<in> (fulfils ?m)\<^sup>*"
    unfolding on_cycle_def reachable_plans_alt by blast
  from plan edge have e: "(plan, dep) \<in> plan_edges g" by (simp add: plan_edges_def)
  from edge have "(plan, dep) \<in> (fulfils ?m)\<^sup>*" by (rule r_into_rtrancl)
  with plan have dep: "dep \<in> reachable_plans g" by (rule reachable_plans_closed)
  have "(dep, dep) \<in> (plan_edges g)\<^sup>+"
  proof (cases "d = plan")
    case True
    with d(1) have "Plan_key plan = Plan_key dep" by simp
    from fulfils_key [OF this edge] dep have "(dep, dep) \<in> plan_edges g"
      by (simp add: plan_edges_def)
    then show ?thesis by (rule r_into_trancl)
  next
    case False
    with d(3) obtain x where x: "(d, x) \<in> fulfils ?m" "(x, plan) \<in> (fulfils ?m)\<^sup>*"
      by (auto elim: converse_rtranclE)
    from fulfils_key [OF d(1) x(1)] have dx: "(dep, x) \<in> fulfils ?m" .
    with dep have 1: "(dep, x) \<in> plan_edges g" by (simp add: plan_edges_def)
    from dx have "(dep, x) \<in> (fulfils ?m)\<^sup>*" by (rule r_into_rtrancl)
    with dep have "x \<in> reachable_plans g" by (rule reachable_plans_closed)
    from reachable_plan_edges [OF x(2) this] have "(x, plan) \<in> (plan_edges g)\<^sup>*" .
    with 1 have "(dep, plan) \<in> (plan_edges g)\<^sup>+" by (rule rtrancl_into_trancl2)
    from this e show ?thesis by (rule trancl_into_trancl)
  qed
  then show ?thesis unfolding acyclic_def by blast
qed

lemma dependencies_first_nth:
  "dependencies_first m R seen ys \<Longrightarrow> i < length ys
     \<Longrightarrow> pr \<in> set (promises (snd (ys ! i))) \<Longrightarrow> promised m pr = Some dep
     \<Longrightarrow> Plan_key dep \<in> seen \<union> plan_keys (take i ys) \<or> on_cycle m R dep (snd (ys ! i))"
proof (induction ys arbitrary: seen i)
  case Nil
  then show ?case by simp
next
  case (Cons y ys)
  from Cons.prems(1) have a: "\<forall>pr \<in> set (promises (snd y)). \<forall>dep. promised m pr = Some dep \<longrightarrow>
          Plan_key dep \<in> seen \<or> on_cycle m R dep (snd y)"
    and b: "dependencies_first m R (insert (Plan_key (snd y)) seen) ys" by simp_all
  show ?case
  proof (cases i)
    case 0
    with Cons.prems(3,4) a show ?thesis by auto
  next
    case (Suc j)
    with Cons.prems(2,3) have j: "j < length ys" "pr \<in> set (promises (snd (ys ! j)))" by simp_all
    from Cons.IH [OF b j Cons.prems(4)]
    have "Plan_key dep \<in> insert (Plan_key (snd y)) seen \<union> plan_keys (take j ys)
          \<or> on_cycle m R dep (snd (ys ! j))" .
    then show ?thesis by (auto simp: Suc plan_keys_Cons)
  qed
qed

lemma plan_keys_take_nth:
  assumes "k \<in> plan_keys (take i ys)"
  shows "\<exists>j<i. j < length ys \<and> Plan_key (snd (ys ! j)) = k"
proof -
  from assms obtain y where y: "y \<in> set (take i ys)" "Plan_key (snd y) = k"
    unfolding plan_keys_def by auto
  from y(1) obtain j where "j < length (take i ys)" "take i ys ! j = y"
    unfolding in_set_conv_nth by blast
  then have "j < i" "j < length ys" "ys ! j = y" by simp_all
  with y(2) show ?thesis by blast
qed

lemma root_resolves:
  assumes "all_resolve g" and "pr \<in> set (root_promises g)"
  shows "\<exists>P. promised (graph_product_mapper g) pr = Some P
          \<and> (\<forall>pl. (P, pl) \<in> (fulfils (graph_product_mapper g))\<^sup>* \<longrightarrow>
                (\<forall>pr \<in> set (promises pl). promised (graph_product_mapper g) pr \<noteq> None))"
proof -
  let ?m = "graph_product_mapper g"
  from assms obtain P where P: "promised ?m pr = Some P" unfolding all_resolve_def by blast
  have "\<forall>pl. (P, pl) \<in> (fulfils ?m)\<^sup>* \<longrightarrow> (\<forall>pr \<in> set (promises pl). promised ?m pr \<noteq> None)"
  proof (intro allI impI)
    fix pl assume "(P, pl) \<in> (fulfils ?m)\<^sup>*"
    with P assms(2) have "pl \<in> reachable_plans g" unfolding reachable_plans_def by blast
    with assms(1) show "\<forall>pr \<in> set (promises pl). promised ?m pr \<noteq> None"
      unfolding all_resolve_def by blast
  qed
  with P show ?thesis by blast
qed

lemma walk_returns:
  assumes fin: "finite (dom (graph_product_mapper g))"
    and res: "all_resolve g"
    and fuel: "card (Plan_key ` ran (graph_product_mapper g)) \<le> fuel"
  shows "\<exists>out. walk fuel g = Some (Inr (), out)
          \<and> yields_ok (graph_product_mapper g)
               (plans_of (graph_product_mapper g) (root_promises g)) {} out
          \<and> (\<forall>pr \<in> set (root_promises g).
                \<exists>dep. promised (graph_product_mapper g) pr = Some dep
                      \<and> Plan_key dep \<in> plan_keys out)"
proof -
  let ?m = "graph_product_mapper g"
  let ?X = "Plan_key ` ran ?m"
  from fin have finX: "finite ?X" by (simp add: finite_ran)
  have ret: "\<exists>r. walk_plan fuel ?m pr st = Some r"
    if "pr \<in> set (root_promises g)" for pr st
  proof -
    from root_resolves [OF res that] obtain P where P: "promised ?m pr = Some P"
      "\<forall>pl. (P, pl) \<in> (fulfils ?m)\<^sup>* \<longrightarrow> (\<forall>pr \<in> set (promises pl). promised ?m pr \<noteq> None)"
      by blast
    have "card (?X - fst st) \<le> card ?X" by (rule card_mono [OF finX]) auto
    with fuel have "card (?X - fst st) \<le> fuel" by simp
    from walk_plan_returns [OF finX P(2,1) this] show ?thesis .
  qed
  have pst: "\<exists>P. promised ?m pr = Some P \<and> fst r = Inr () \<and> post ?m {P} st (snd r)
               \<and> Plan_key P \<in> fst (snd r)"
    if "pr \<in> set (root_promises g)" "walk_plan fuel ?m pr st = Some r" for pr st r
  proof -
    from root_resolves [OF res that(1)] obtain P where P: "promised ?m pr = Some P"
      "\<forall>pl. (P, pl) \<in> (fulfils ?m)\<^sup>* \<longrightarrow> (\<forall>pr \<in> set (promises pl). promised ?m pr \<noteq> None)"
      by blast
    from walk_plan_post [OF P(2,1) that(2)] P(1) show ?thesis by blast
  qed
  have mono: "fst r = Inr () \<and> fst st \<subseteq> fst (snd r)"
    if "pr \<in> set (root_promises g)" "walk_plan fuel ?m pr st = Some r" for pr st r
    using pst [OF that] by (blast dest: post_seen_mono)
  have "\<exists>r. walk_promises (walk_plan fuel ?m) (root_promises g) ({}, []) = Some r"
    apply (rule walk_promises_returns [where seen = "{}"])
      apply (rule ret; assumption)
     apply (rule mono; assumption)
    apply simp
    done
  then obtain r where r: "walk_promises (walk_plan fuel ?m) (root_promises g) ({}, []) = Some r"
    by blast
  have "fst r = Inr () \<and> post ?m (plans_of ?m (root_promises g)) ({}, []) (snd r)
         \<and> (\<forall>pr \<in> set (root_promises g).
               \<exists>dep. promised ?m pr = Some dep \<and> Plan_key dep \<in> fst (snd r))"
    apply (rule walk_promises_post [where rec = "walk_plan fuel ?m"])
     apply (rule pst; assumption)
    apply (rule r)
    done
  then have p: "fst r = Inr ()" "post ?m (plans_of ?m (root_promises g)) ({}, []) (snd r)"
    "\<forall>pr \<in> set (root_promises g).
        \<exists>dep. promised ?m pr = Some dep \<and> Plan_key dep \<in> fst (snd r)"
    by blast+
  from p(2) have out: "fst (snd r) = plan_keys (snd (snd r))"
    "yields_ok ?m (plans_of ?m (root_promises g)) {} (snd (snd r))"
    unfolding post_def by auto
  from p(1) have "r = (Inr (), snd r)" by (cases r) auto
  with r have "walk fuel g = Some (Inr (), snd (snd r))"
    by (cases r) (simp add: walk_def)
  with out p(3) show ?thesis by auto
qed

lemma walk_complete:
  assumes ok: "yields_ok (graph_product_mapper g)
               (plans_of (graph_product_mapper g) (root_promises g)) {} out"
    and roots: "\<forall>pr \<in> set (root_promises g).
                \<exists>dep. promised (graph_product_mapper g) pr = Some dep
                      \<and> Plan_key dep \<in> plan_keys out"
    and plan: "plan \<in> reachable_plans g"
  shows "Plan_key plan \<in> plan_keys out"
proof -
  let ?m = "graph_product_mapper g"
  from plan obtain r where r: "r \<in> plans_of ?m (root_promises g)" "(r, plan) \<in> (fulfils ?m)\<^sup>*"
    unfolding reachable_plans_alt by blast
  from ok have closed: "\<forall>y \<in> set out. \<forall>pr \<in> set (promises (snd y)).
            \<exists>dep. promised ?m pr = Some dep \<and> Plan_key dep \<in> {} \<union> plan_keys out"
    unfolding yields_ok_def by blast
  from r(2) show ?thesis
  proof (induction rule: rtrancl_induct)
    case base
    from r(1) obtain pr where "pr \<in> set (root_promises g)" "promised ?m pr = Some r"
      unfolding plans_of_def by blast
    with roots show ?case by fastforce
  next
    case (step a b)
    from step.IH obtain y where y: "y \<in> set out" "Plan_key (snd y) = Plan_key a"
      unfolding plan_keys_def by auto
    from fulfils_key [OF y(2) [symmetric] step.hyps(2)]
    obtain pr where pr: "pr \<in> set (promises (snd y))" "promised ?m pr = Some b"
      unfolding fulfils_def by auto
    from closed y(1) pr(1) obtain dep where "promised ?m pr = Some dep"
      "Plan_key dep \<in> {} \<union> plan_keys out" by blast
    with pr(2) show ?case by simp
  qed
qed

lemma walk_post_order_aux:
  assumes fin: "finite (dom (graph_product_mapper g))"
    and res: "all_resolve g"
    and fuel: "card (Plan_key ` ran (graph_product_mapper g)) \<le> fuel"
  shows "\<exists>out. walk fuel g = Some (Inr (), out)
      \<and> (\<forall>y \<in> set out. promised (graph_product_mapper g) (fst y) = Some (snd y)
                       \<and> snd y \<in> reachable_plans g)
      \<and> (\<forall>plan \<in> reachable_plans g. \<exists>y \<in> set out. Plan_eq (snd y) plan)
      \<and> distinct (map (\<lambda>y. Plan_key (snd y)) out)
      \<and> (\<forall>i<length out. \<forall>pr \<in> set (promises (snd (out ! i))).
            \<exists>dep. promised (graph_product_mapper g) pr = Some dep
               \<and> ((\<exists>j<i. Plan_eq (snd (out ! j)) dep)
                  \<or> on_cycle (graph_product_mapper g)
                       (plans_of (graph_product_mapper g) (root_promises g)) dep
                       (snd (out ! i))))
      \<and> (acyclic (plan_edges g) \<longrightarrow>
           (\<forall>i<length out. \<forall>pr \<in> set (promises (snd (out ! i))).
              \<exists>dep. promised (graph_product_mapper g) pr = Some dep
                 \<and> (\<exists>j<i. Plan_eq (snd (out ! j)) dep)))"
proof -
  let ?m = "graph_product_mapper g"
  let ?R = "plans_of ?m (root_promises g)"
  from walk_returns [OF fin res fuel] obtain out where
    w: "walk fuel g = Some (Inr (), out)" and ok: "yields_ok ?m ?R {} out"
    and roots: "\<forall>pr \<in> set (root_promises g).
                  \<exists>dep. promised ?m pr = Some dep \<and> Plan_key dep \<in> plan_keys out"
    by blast
  from ok have y2: "distinct (map (\<lambda>y. Plan_key (snd y)) out)"
    and y3: "\<forall>y \<in> set out. promised ?m (fst y) = Some (snd y)"
    and y4: "\<forall>y \<in> set out. \<exists>r \<in> ?R. (r, snd y) \<in> (fulfils ?m)\<^sup>*"
    and y5: "\<forall>y \<in> set out. \<forall>pr \<in> set (promises (snd y)).
            \<exists>dep. promised ?m pr = Some dep \<and> Plan_key dep \<in> {} \<union> plan_keys out"
    and y6: "dependencies_first ?m ?R {} out"
    unfolding yields_ok_def by blast+
  from y4 have reach: "\<forall>y \<in> set out. snd y \<in> reachable_plans g"
    unfolding reachable_plans_alt by blast
  have 1: "\<forall>y \<in> set out. promised ?m (fst y) = Some (snd y) \<and> snd y \<in> reachable_plans g"
    using y3 reach by blast
  have 2: "\<forall>plan \<in> reachable_plans g. \<exists>y \<in> set out. Plan_eq (snd y) plan"
  proof
    fix plan assume "plan \<in> reachable_plans g"
    from walk_complete [OF ok roots this]
    obtain y where "y \<in> set out" "Plan_key (snd y) = Plan_key plan"
      unfolding plan_keys_def by auto
    then show "\<exists>y \<in> set out. Plan_eq (snd y) plan"
      unfolding Plan_eq_def by blast
  qed
  have ord: "\<exists>dep. promised ?m pr = Some dep
               \<and> ((\<exists>j<i. Plan_eq (snd (out ! j)) dep) \<or> on_cycle ?m ?R dep (snd (out ! i)))"
    if "i < length out" "pr \<in> set (promises (snd (out ! i)))" for i pr
  proof -
    from that(1) have "out ! i \<in> set out" by simp
    with y5 that(2) obtain dep where dep: "promised ?m pr = Some dep" by blast
    from dependencies_first_nth [OF y6 that dep]
    have "Plan_key dep \<in> plan_keys (take i out) \<or> on_cycle ?m ?R dep (snd (out ! i))" by simp
    then have "(\<exists>j<i. Plan_eq (snd (out ! j)) dep) \<or> on_cycle ?m ?R dep (snd (out ! i))"
    proof
      assume "Plan_key dep \<in> plan_keys (take i out)"
      from plan_keys_take_nth [OF this] show ?thesis unfolding Plan_eq_def by blast
    next
      assume "on_cycle ?m ?R dep (snd (out ! i))"
      then show ?thesis by simp
    qed
    with dep show ?thesis by blast
  qed
  have ord': "\<exists>dep. promised ?m pr = Some dep \<and> (\<exists>j<i. Plan_eq (snd (out ! j)) dep)"
    if "acyclic (plan_edges g)" "i < length out" "pr \<in> set (promises (snd (out ! i)))" for i pr
  proof -
    from ord [OF that(2,3)] obtain dep where dep: "promised ?m pr = Some dep"
      "(\<exists>j<i. Plan_eq (snd (out ! j)) dep) \<or> on_cycle ?m ?R dep (snd (out ! i))" by blast
    from that(2) reach have r: "snd (out ! i) \<in> reachable_plans g" by simp
    from that(3) dep(1) have e: "(snd (out ! i), dep) \<in> fulfils ?m"
      unfolding fulfils_def by auto
    have "\<not> on_cycle ?m ?R dep (snd (out ! i))"
    proof
      assume "on_cycle ?m ?R dep (snd (out ! i))"
      from on_cycle_not_acyclic [OF this r e] that(1) show False by simp
    qed
    with dep show ?thesis by blast
  qed
  from w 1 2 y2 ord ord' show ?thesis by blast
qed

text \<open>
  C6. \<^verbatim>\<open>ExecutionGraph.walk\<close> is a depth-first post-order traversal. For every execution graph
  (its product mapper is a dict, so it has finitely many entries) whose reachable promises all
  resolve to plans, the walk ends without raising for every large enough depth of recursion,
  and what it has yielded then is: pairs of a promise and the plan registered for it, all
  reachable from the root promises; for every reachable plan an equal plan; no two equal plans,
  so every reachable plan exactly once, also when it is reached through different promises or
  as a structurally equal copy. Every plan is yielded after a plan equal to each plan that
  fulfils one of its promises, unless that plan lies on a cycle through it; an execution graph
  is a DAG (the class's docstring), and then every plan is yielded after all the plans that
  fulfil its promises.
\<close>

theorem walk_post_order:
  assumes "finite (dom (graph_product_mapper g))" and "all_resolve g"
  shows "\<exists>F. \<forall>fuel\<ge>F. \<exists>out. walk fuel g = Some (Inr (), out)
      \<and> (\<forall>y \<in> set out. promised (graph_product_mapper g) (fst y) = Some (snd y)
                       \<and> snd y \<in> reachable_plans g)
      \<and> (\<forall>plan \<in> reachable_plans g. \<exists>y \<in> set out. Plan_eq (snd y) plan)
      \<and> distinct (map (\<lambda>y. Plan_key (snd y)) out)
      \<and> (\<forall>i<length out. \<forall>pr \<in> set (promises (snd (out ! i))).
            \<exists>dep. promised (graph_product_mapper g) pr = Some dep
               \<and> ((\<exists>j<i. Plan_eq (snd (out ! j)) dep)
                  \<or> on_cycle (graph_product_mapper g)
                       (plans_of (graph_product_mapper g) (root_promises g)) dep
                       (snd (out ! i))))
      \<and> (acyclic (plan_edges g) \<longrightarrow>
           (\<forall>i<length out. \<forall>pr \<in> set (promises (snd (out ! i))).
              \<exists>dep. promised (graph_product_mapper g) pr = Some dep
                 \<and> (\<exists>j<i. Plan_eq (snd (out ! j)) dep)))"
  using walk_post_order_aux [OF assms]
  by (intro exI [of _ "card (Plan_key ` ran (graph_product_mapper g))"] allI impI)

lemma example_graph_tables:
  "root_promises example_graph =
     [Promise_init ''Classes'' (Plain 10) None, Promise_init ''Docs'' (Plain 20) None]"
  "graph_product_mapper example_graph =
     [(''Classes'', 10, None) \<mapsto> plan_lib, (''Classes'', 20, None) \<mapsto> plan_dep,
      (''Docs'', 20, None) \<mapsto> plan_dep]"
  by (simp_all add: example_graph_def)

lemma promises_plan_dep: "promises plan_dep = []"
  by (simp add: promises_def plan_dep_def Plan_init_def pyset_def
      iter_promises.simps [of "PStr ''src''"] is_iterable_def)

lemma promises_plan_lib: "promises plan_lib = [Promise_init ''Classes'' (Plain 20) None]"
  by (simp add: promises_def plan_lib_def Plan_init_def pyset_def set_add_def
      iter_promises.simps [of "PStr ''src''"]
      iter_promises.simps [of "PList [PPromise (Promise_init ''Classes'' (Plain 20) None)]"]
      iter_promises.simps [of "PPromise (Promise_init ''Classes'' (Plain 20) None)"]
      is_iterable_def)

lemma plan_lib_neq_plan_dep: "Plan_key plan_lib \<noteq> Plan_key plan_dep"
  by (simp add: Plan_key_def plan_lib_def plan_dep_def Plan_init_def pyset_def set_add_def
      as_subject_def)

lemma example_promised:
  "promised (graph_product_mapper example_graph) pr = Some plan
     \<Longrightarrow> plan = plan_lib \<or> plan = plan_dep"
  by (auto simp: example_graph_tables promised_def split: if_splits)

lemma example_reachable: "plan \<in> reachable_plans example_graph \<Longrightarrow> plan = plan_lib \<or> plan = plan_dep"
proof -
  let ?m = "graph_product_mapper example_graph"
  assume "plan \<in> reachable_plans example_graph"
  then obtain r where r: "r \<in> plans_of ?m (root_promises example_graph)"
    "(r, plan) \<in> (fulfils ?m)\<^sup>*"
    unfolding reachable_plans_alt by blast
  from r(2) show ?thesis
  proof (cases rule: rtranclE)
    case base
    with r(1) show ?thesis unfolding plans_of_def by (auto dest: example_promised)
  next
    case (step y)
    then show ?thesis unfolding fulfils_def by (auto dest: example_promised)
  qed
qed

lemma example_all_resolve: "all_resolve example_graph"
proof -
  have "\<forall>pr \<in> set (root_promises example_graph).
          promised (graph_product_mapper example_graph) pr \<noteq> None"
    by (simp add: example_graph_tables promised_def Promise_key_def Promise_init_def
        as_subject_def)
  moreover have "\<forall>pr \<in> set (promises plan).
      promised (graph_product_mapper example_graph) pr \<noteq> None"
    if "plan \<in> reachable_plans example_graph" for plan
    using example_reachable [OF that]
    by (auto simp: promises_plan_lib promises_plan_dep example_graph_tables promised_def
        Promise_key_def Promise_init_def as_subject_def)
  ultimately show ?thesis unfolding all_resolve_def by blast
qed

lemma example_acyclic: "acyclic (plan_edges example_graph)"
proof -
  have sub: "plan_edges example_graph \<subseteq> {(plan_lib, plan_dep)}"
  proof
    fix e assume e: "e \<in> plan_edges example_graph"
    obtain a b where ab: "e = (a, b)" by (cases e)
    with e have a: "a \<in> reachable_plans example_graph"
      and f: "(a, b) \<in> fulfils (graph_product_mapper example_graph)"
      by (simp_all add: plan_edges_def)
    from f obtain pr where pr: "pr \<in> set (promises a)"
      "promised (graph_product_mapper example_graph) pr = Some b"
      unfolding fulfils_def by auto
    from example_reachable [OF a] pr(1) have al: "a = plan_lib"
      by (auto simp: promises_plan_dep)
    with pr have "b = plan_dep"
      by (simp add: promises_plan_lib example_graph_tables promised_def Promise_key_def
          Promise_init_def as_subject_def)
    with al ab show "e \<in> {(plan_lib, plan_dep)}" by simp
  qed
  have "plan_lib \<noteq> plan_dep" using plan_lib_neq_plan_dep by auto
  moreover have "acyclic ({} :: ((string, string, nat, nat) Plan \<times> (string, string, nat, nat) Plan) set)"
    by (simp add: acyclic_def)
  ultimately have "acyclic {(plan_lib, plan_dep)}" by (simp add: acyclic_insert)
  from this sub show ?thesis by (rule acyclic_subset)
qed

lemma example_walk:
  "walk 2 example_graph
   = Some (Inr (), [(Promise_init ''Classes'' (Plain 20) None, plan_dep),
                    (Promise_init ''Classes'' (Plain 10) None, plan_lib)])"
  using plan_lib_neq_plan_dep
  by (simp add: walk_def numeral_2_eq_2 example_graph_tables promised_def Promise_key_def
      Promise_init_def as_subject_def promises_plan_lib promises_plan_dep)

theorem walk_post_order_witness:
  "finite (dom (graph_product_mapper example_graph)) \<and> all_resolve example_graph
   \<and> acyclic (plan_edges example_graph)
   \<and> (\<exists>F. \<forall>fuel\<ge>F. \<exists>out. walk fuel example_graph = Some (Inr (), out)
        \<and> (\<forall>y \<in> set out. snd y \<in> reachable_plans example_graph)
        \<and> (\<forall>plan \<in> reachable_plans example_graph. \<exists>y \<in> set out. Plan_eq (snd y) plan)
        \<and> distinct (map (\<lambda>y. Plan_key (snd y)) out)
        \<and> (\<forall>i<length out. \<forall>pr \<in> set (promises (snd (out ! i))).
              \<exists>dep. promised (graph_product_mapper example_graph) pr = Some dep
                 \<and> (\<exists>j<i. Plan_eq (snd (out ! j)) dep)))
   \<and> walk 2 example_graph
       = Some (Inr (), [(Promise_init ''Classes'' (Plain 20) None, plan_dep),
                        (Promise_init ''Classes'' (Plain 10) None, plan_lib)])"
proof -
  have fin: "finite (dom (graph_product_mapper example_graph))"
    by (simp add: example_graph_tables)
  from walk_post_order [OF fin example_all_resolve] obtain F where
    F: "\<forall>fuel\<ge>F. \<exists>out. walk fuel example_graph = Some (Inr (), out)
      \<and> (\<forall>y \<in> set out. promised (graph_product_mapper example_graph) (fst y) = Some (snd y)
                       \<and> snd y \<in> reachable_plans example_graph)
      \<and> (\<forall>plan \<in> reachable_plans example_graph. \<exists>y \<in> set out. Plan_eq (snd y) plan)
      \<and> distinct (map (\<lambda>y. Plan_key (snd y)) out)
      \<and> (\<forall>i<length out. \<forall>pr \<in> set (promises (snd (out ! i))).
            \<exists>dep. promised (graph_product_mapper example_graph) pr = Some dep
               \<and> ((\<exists>j<i. Plan_eq (snd (out ! j)) dep)
                  \<or> on_cycle (graph_product_mapper example_graph)
                       (plans_of (graph_product_mapper example_graph)
                          (root_promises example_graph)) dep
                       (snd (out ! i))))
      \<and> (acyclic (plan_edges example_graph) \<longrightarrow>
           (\<forall>i<length out. \<forall>pr \<in> set (promises (snd (out ! i))).
              \<exists>dep. promised (graph_product_mapper example_graph) pr = Some dep
                 \<and> (\<exists>j<i. Plan_eq (snd (out ! j)) dep)))"
    by (rule exE)
  have "\<exists>out. walk fuel example_graph = Some (Inr (), out)
        \<and> (\<forall>y \<in> set out. snd y \<in> reachable_plans example_graph)
        \<and> (\<forall>plan \<in> reachable_plans example_graph. \<exists>y \<in> set out. Plan_eq (snd y) plan)
        \<and> distinct (map (\<lambda>y. Plan_key (snd y)) out)
        \<and> (\<forall>i<length out. \<forall>pr \<in> set (promises (snd (out ! i))).
              \<exists>dep. promised (graph_product_mapper example_graph) pr = Some dep
                 \<and> (\<exists>j<i. Plan_eq (snd (out ! j)) dep))"
    if "F \<le> fuel" for fuel
  proof -
    from F that obtain out where o: "walk fuel example_graph = Some (Inr (), out)"
      "\<forall>y \<in> set out. promised (graph_product_mapper example_graph) (fst y) = Some (snd y)
                       \<and> snd y \<in> reachable_plans example_graph"
      "\<forall>plan \<in> reachable_plans example_graph. \<exists>y \<in> set out. Plan_eq (snd y) plan"
      "distinct (map (\<lambda>y. Plan_key (snd y)) out)"
      "acyclic (plan_edges example_graph) \<longrightarrow>
           (\<forall>i<length out. \<forall>pr \<in> set (promises (snd (out ! i))).
              \<exists>dep. promised (graph_product_mapper example_graph) pr = Some dep
                 \<and> (\<exists>j<i. Plan_eq (snd (out ! j)) dep))"
      by blast
    from o(2) have "\<forall>y \<in> set out. snd y \<in> reachable_plans example_graph" by blast
    moreover from o(5) example_acyclic
    have "\<forall>i<length out. \<forall>pr \<in> set (promises (snd (out ! i))).
              \<exists>dep. promised (graph_product_mapper example_graph) pr = Some dep
                 \<and> (\<exists>j<i. Plan_eq (snd (out ! j)) dep)" by (rule mp)
    ultimately show ?thesis using o(1,3,4) by blast
  qed
  then have "\<exists>F. \<forall>fuel\<ge>F. \<exists>out. walk fuel example_graph = Some (Inr (), out)
        \<and> (\<forall>y \<in> set out. snd y \<in> reachable_plans example_graph)
        \<and> (\<forall>plan \<in> reachable_plans example_graph. \<exists>y \<in> set out. Plan_eq (snd y) plan)
        \<and> distinct (map (\<lambda>y. Plan_key (snd y)) out)
        \<and> (\<forall>i<length out. \<forall>pr \<in> set (promises (snd (out ! i))).
              \<exists>dep. promised (graph_product_mapper example_graph) pr = Some dep
                 \<and> (\<exists>j<i. Plan_eq (snd (out ! j)) dep))"
    by blast
  with fin example_all_resolve example_acyclic example_walk show ?thesis by (intro conjI)
qed

end
